theory Spec2Isabelle
  imports Main "HOL-Library.List_Lexorder" "HOL-Library.AList"
begin

section \<open>Strings of codepoints\<close>

text \<open>
  The builder in \<^verbatim>\<open>cangjie_to_pleco_pqb.py\<close> works on Python \<^verbatim>\<open>str\<close> values, which are
  sequences of Unicode codepoints: \<^verbatim>\<open>len\<close>, indexing, iteration and \<^verbatim>\<open>ord\<close> all count
  codepoints. A string is therefore a list of natural numbers, one per codepoint, and the
  comparison used by \<^verbatim>\<open>sorted\<close> is the lexicographic order on such lists.
\<close>

type_synonym codepoint = nat
type_synonym ustr = "nat list"

definition ascii :: "string \<Rightarrow> ustr" where
  "ascii s = map of_char s"

definition PLECO_NL :: ustr where
  "PLECO_NL = [0xEAB1]"

text \<open>
  \<^verbatim>\<open>sep.join(parts)\<close>.
\<close>

fun join :: "ustr \<Rightarrow> ustr list \<Rightarrow> ustr" where
  "join sep [] = []"
| "join sep [p] = p"
| "join sep (p # q # ps) = p @ sep @ join sep (q # ps)"

text \<open>
  The characters that \<^verbatim>\<open>str.strip()\<close>, and the class \<^verbatim>\<open>\s\<close> of \<^verbatim>\<open>re\<close> on a \<^verbatim>\<open>str\<close>
  pattern, treat as whitespace.
\<close>

definition is_space :: "codepoint \<Rightarrow> bool" where
  "is_space c \<longleftrightarrow>
     (0x09 \<le> c \<and> c \<le> 0x0D) \<or> (0x1C \<le> c \<and> c \<le> 0x20) \<or> c = 0x85 \<or> c = 0xA0 \<or>
     c = 0x1680 \<or> (0x2000 \<le> c \<and> c \<le> 0x200A) \<or> c = 0x2028 \<or> c = 0x2029 \<or>
     c = 0x202F \<or> c = 0x205F \<or> c = 0x3000"

definition py_lstrip :: "(codepoint \<Rightarrow> bool) \<Rightarrow> ustr \<Rightarrow> ustr" where
  "py_lstrip P s = dropWhile P s"

definition py_rstrip :: "(codepoint \<Rightarrow> bool) \<Rightarrow> ustr \<Rightarrow> ustr" where
  "py_rstrip P s = rev (dropWhile P (rev s))"

definition py_strip :: "ustr \<Rightarrow> ustr" where
  "py_strip s = py_rstrip is_space (py_lstrip is_space s)"

text \<open>
  \<^verbatim>\<open>str.splitlines()\<close>: a line ends at each line boundary, \<^verbatim>\<open>\r\n\<close> counts as one
  boundary, and a boundary at the very end of the text opens no further line.
\<close>

definition is_linebreak :: "codepoint \<Rightarrow> bool" where
  "is_linebreak c \<longleftrightarrow>
     c = 0x0A \<or> c = 0x0B \<or> c = 0x0C \<or> c = 0x0D \<or> c = 0x1C \<or> c = 0x1D \<or> c = 0x1E \<or>
     c = 0x85 \<or> c = 0x2028 \<or> c = 0x2029"

fun splitlines_from :: "ustr \<Rightarrow> ustr \<Rightarrow> ustr list" where
  "splitlines_from cur [] = (if cur = [] then [] else [rev cur])"
| "splitlines_from cur (c # cs) =
     (if c = 0x0D then
        (case cs of
           [] \<Rightarrow> [rev cur]
         | d # ds \<Rightarrow> if d = 0x0A then rev cur # splitlines_from [] ds
                     else rev cur # splitlines_from [] (d # ds))
      else if is_linebreak c then rev cur # splitlines_from [] cs
      else splitlines_from (c # cur) cs)"

definition splitlines :: "ustr \<Rightarrow> ustr list" where
  "splitlines text = splitlines_from [] text"

text \<open>
  \<^verbatim>\<open>re.split(r"[...]+", s)\<close> for a character class: the pieces between the maximal runs of
  separator characters. A run at the start or at the end of the string leaves an empty
  piece there, and the empty string splits into one empty piece.
\<close>

function re_split :: "(codepoint \<Rightarrow> bool) \<Rightarrow> ustr \<Rightarrow> ustr list" where
  "re_split sep s =
     (let piece = takeWhile (\<lambda>c. \<not> sep c) s; rest = dropWhile (\<lambda>c. \<not> sep c) s
      in if rest = [] then [piece] else piece # re_split sep (dropWhile sep rest))"
  by pat_completeness auto
termination
proof (relation "measure (\<lambda>(sep, s). length s)", goal_cases)
  case 1
  show ?case by simp
next
  case (2 sep s piece rest)
  have shrink: "length (dropWhile sep r) < length s"
    if "r \<noteq> []" and "r = dropWhile (\<lambda>c. \<not> sep c) s" for r
  proof -
    from that(1) obtain c cs where r: "r = c # cs"
      by (cases r) simp_all
    have "\<not> \<not> sep (hd r)"
      unfolding that(2) by (rule hd_dropWhile) (use that in simp)
    then have "sep c"
      by (simp add: r)
    then have "length (dropWhile sep r) \<le> length cs"
      by (simp add: r length_dropWhile_le)
    moreover have "length r \<le> length s"
      unfolding that(2) by (rule length_dropWhile_le)
    ultimately show ?thesis
      by (simp add: r)
  qed
  from 2 show ?case
    using shrink [of rest] by simp
qed

declare re_split.simps [simp del]

section \<open>Loading a code table\<close>

definition CJK_RANGES :: "(codepoint \<times> codepoint) list" where
  "CJK_RANGES =
     [(0x4E00, 0x9FFF), (0x3400, 0x4DBF), (0x20000, 0x2A6DF),
      (0x2A700, 0x2B73F), (0x2B740, 0x2B81D), (0x2B820, 0x2CEAD),
      (0x2CEB0, 0x2EBE0), (0x31350, 0x323AF), (0x2EBF0, 0x2EE5D),
      (0x323B0, 0x33479), (0x2F800, 0x2FA1F)]"

definition EXTRA_ALLOWED :: "codepoint list" where
  "EXTRA_ALLOWED = [0x3007]"

fun cjk_chars :: "ustr \<Rightarrow> bool" where
  "cjk_chars [] = True"
| "cjk_chars (cp # rest) =
     (if cp \<in> set EXTRA_ALLOWED then cjk_chars rest
      else if \<not> list_ex (\<lambda>(lo, hi). lo \<le> cp \<and> cp \<le> hi) CJK_RANGES then False
      else cjk_chars rest)"

definition is_cjk_word :: "ustr \<Rightarrow> bool" where
  "is_cjk_word w = (if w = [] then False else cjk_chars w)"

text \<open>
  A table is the dictionary \<^verbatim>\<open>{hanzi: {code, ...}}\<close>. The dictionary is an association
  list in insertion order; a code set is the list of its members in the order they were
  added. Python fixes no iteration order for a set, and the builder reads the sets only
  through \<^verbatim>\<open>sorted\<close>, so nothing below depends on that order.
\<close>

type_synonym table = "(ustr \<times> ustr list) list"

definition table_add :: "ustr \<Rightarrow> ustr \<Rightarrow> table \<Rightarrow> table" where
  "table_add char code t =
     (case map_of t char of
        None \<Rightarrow> t @ [(char, [code])]
      | Some cs \<Rightarrow> AList.update char (if code \<in> set cs then cs else cs @ [code]) t)"

text \<open>
  One iteration of the loop of \<^verbatim>\<open>load_cangjie_table\<close> up to the insertion: \<open>None\<close> for each
  \<^verbatim>\<open>continue\<close>, otherwise the code and the character that are inserted.
\<close>

definition parse_line :: "ustr \<Rightarrow> (ustr \<times> ustr) option" where
  "parse_line raw =
     (let line = py_strip raw in
      if line = [] \<or> take 1 line = ascii ''#'' then None
      else
        let parts = re_split is_space line in
        if length parts < 2 then None
        else
          let code = py_strip (parts ! 0); char = py_strip (parts ! 1) in
          if code = [] \<or> char = [] then None
          else if length char \<noteq> 1 \<or> \<not> is_cjk_word char then None
          else Some (code, char))"

definition load_line :: "ustr \<Rightarrow> table \<Rightarrow> table" where
  "load_line raw t =
     (case parse_line raw of None \<Rightarrow> t | Some (code, char) \<Rightarrow> table_add char code t)"

definition load_cangjie_table :: "ustr \<Rightarrow> table" where
  "load_cangjie_table text =
     fold load_line (splitlines (py_lstrip (\<lambda>c. c = 0xFEFF) text)) []"

section \<open>Composing a definition\<close>

definition LATIN_TO_SHAPE :: "(codepoint \<times> ustr) list" where
  "LATIN_TO_SHAPE =
     [(97, [0x65E5]), (98, [0x6708]), (99, [0x91D1]), (100, [0x6728]), (101, [0x6C34]),
      (102, [0x706B]), (103, [0x571F]), (104, [0x7AF9]), (105, [0x6208]), (106, [0x5341]),
      (107, [0x5927]), (108, [0x4E2D]), (109, [0x4E00]), (110, [0x5F13]), (111, [0x4EBA]),
      (112, [0x5FC3]), (113, [0x624B]), (114, [0x53E3]), (115, [0x5C38]), (116, [0x5EFF]),
      (117, [0x5C71]), (118, [0x5973]), (119, [0x7530]), (120, [0x96E3]), (121, [0x535C]),
      (122, [0x91CD])]"

definition latin_code_to_shapes :: "ustr \<Rightarrow> ustr" where
  "latin_code_to_shapes code =
     concat (map (\<lambda>ch. case map_of LATIN_TO_SHAPE ch of None \<Rightarrow> [ch] | Some g \<Rightarrow> g) code)"

text \<open>
  \<^verbatim>\<open>list(dict.fromkeys(codes))\<close>: the first occurrence of each code, in order.
\<close>

definition dict_fromkeys :: "ustr list \<Rightarrow> ustr list" where
  "dict_fromkeys codes = fold (\<lambda>c ks. if c \<in> set ks then ks else ks @ [c]) codes []"

definition format_section :: "ustr \<Rightarrow> ustr list \<Rightarrow> ustr" where
  "format_section label codes0 =
     (let codes = dict_fromkeys codes0;
          shapes = map latin_code_to_shapes codes
      in label @ ascii '':'' @ PLECO_NL @
         join (ascii '' / '') shapes @ PLECO_NL @
         join (ascii '' / '') codes)"

text \<open>
  \<^verbatim>\<open>cj.get(ch, set())\<close> and \<^verbatim>\<open>sorted\<close> of a set: the members, each once, in ascending order.
\<close>

definition table_get :: "table \<Rightarrow> ustr \<Rightarrow> ustr list" where
  "table_get t ch = (case map_of t ch of None \<Rightarrow> [] | Some cs \<Rightarrow> cs)"

definition sorted_set :: "ustr list \<Rightarrow> ustr list" where
  "sorted_set cs = sort (remdups cs)"

text \<open>
  The body of the loop over \<^verbatim>\<open>all_chars\<close> in \<^verbatim>\<open>main\<close>: \<open>None\<close> for \<^verbatim>\<open>continue\<close>, otherwise
  the text stored under the character.
\<close>

definition compose_entry :: "table \<Rightarrow> table \<Rightarrow> ustr \<Rightarrow> ustr option" where
  "compose_entry cj3 cj5 ch =
     (let codes3 = sorted_set (table_get cj3 ch);
          codes5 = sorted_set (table_get cj5 ch)
      in if codes3 = [] \<and> codes5 = [] then None
         else if codes3 = codes5 then Some (format_section (ascii ''Cangjie'') codes3)
         else
           let parts =
                 (if codes3 \<noteq> [] then [format_section (ascii ''Cangjie3'') codes3] else []) @
                 (if codes5 \<noteq> [] then [format_section (ascii ''Cangjie5'') codes5] else [])
           in Some (join (PLECO_NL @ PLECO_NL) parts))"

type_synonym entry_dict = "(ustr \<times> ustr) list"

text \<open>
  \<^verbatim>\<open>all_chars\<close> is a set; the loop visits its members in some order, here the order of their
  first occurrence in the two tables. Each iteration writes only its own key.
\<close>

definition all_chars :: "table \<Rightarrow> table \<Rightarrow> ustr list" where
  "all_chars cj3 cj5 = remdups (map fst cj3 @ map fst cj5)"

definition compose_entries :: "table \<Rightarrow> table \<Rightarrow> entry_dict" where
  "compose_entries cj3 cj5 =
     fold (\<lambda>ch es. case compose_entry cj3 cj5 ch of
                      None \<Rightarrow> es
                    | Some d \<Rightarrow> AList.update ch d es)
          (all_chars cj3 cj5) []"

section \<open>Phonetic transcription and sort key\<close>

definition to_fullwidth_ascii :: "ustr \<Rightarrow> ustr" where
  "to_fullwidth_ascii s = map (\<lambda>cp. if 0x21 \<le> cp \<and> cp \<le> 0x7E then cp + 0xFEE0 else cp) s"

text \<open>
  \<^verbatim>\<open>pypinyin.pinyin(word, style=Style.TONE3, heteronym=False, errors=lambda _: [""])\<close> is
  a library call; it is a parameter \<open>pinyin\<close>, returning one list of readings per unit of
  the word. \<^verbatim>\<open>mandarin_pinyin_tone3\<close> takes the first reading of each (or the empty string) and
  replaces U+00FC by \<^verbatim>\<open>v\<close>.
\<close>

type_synonym pinyin_fn = "ustr \<Rightarrow> ustr list list"

definition mandarin_pinyin_tone3 :: "pinyin_fn \<Rightarrow> ustr \<Rightarrow> ustr list" where
  "mandarin_pinyin_tone3 pinyin w =
     map (\<lambda>item. let syl = (case item of [] \<Rightarrow> [] | s # _ \<Rightarrow> s)
                  in map (\<lambda>c. if c = 0xFC then 0x76 else c) syl)
         (pinyin w)"

definition make_sortkey :: "ustr list \<Rightarrow> ustr \<Rightarrow> ustr" where
  "make_sortkey py_syllables w =
     (if length w = 1
      then to_fullwidth_ascii (case py_syllables of [] \<Rightarrow> [] | s # _ \<Rightarrow> s) @ w
      else concat (map (\<lambda>(c, s). to_fullwidth_ascii s @ [c]) (zip w py_syllables)))"

definition split_pron_tokens :: "ustr \<Rightarrow> ustr list" where
  "split_pron_tokens p =
     filter (\<lambda>t. t \<noteq> []) (re_split (\<lambda>c. is_space c \<or> c = 0x40) (py_strip p))"

section \<open>The store\<close>

text \<open>
  The artifact is an SQLite database. Its tables are lists of rows in insertion order. The
  eight tables \<^verbatim>\<open>pleco_dict_posdex_hz_1\<close> .. \<^verbatim>\<open>pleco_dict_posdex_py_4\<close> have the same columns;
  a row carries the family and the position of the table it is in.
\<close>

record entry_row =
  uid :: int
  created :: int
  modified :: int
  len :: int
  word :: ustr
  altword :: "ustr option"
  pron :: ustr
  defn :: ustr
  sortkey :: ustr

datatype family = HZ | PY

record posdex_row =
  tbl_family :: family
  tbl_pos :: nat
  syllable :: ustr
  p_uid :: int
  p_length :: int

record import_row =
  import_id :: int
  starttime :: int
  endtime :: int
  startentry :: int
  endentry :: int

record prop_row =
  propset :: int
  propid :: ustr
  propvalue :: ustr
  propisstring :: int

record store =
  entries :: "entry_row list"
  posdex :: "posdex_row list"
  import_log :: "import_row list"
  properties :: "prop_row list"

text \<open>
  The store after \<^verbatim>\<open>SCHEMA_SQL\<close> and \<^verbatim>\<open>INDEX_SQL\<close>: every table exists and is empty.
\<close>

definition schema_store :: store where
  "schema_store = \<lparr>entries = [], posdex = [], import_log = [], properties = []\<rparr>"

datatype error = SystemExit ustr | IntegrityError | KeyError

text \<open>
  \<^verbatim>\<open>INSERT INTO pleco_dict_entries\<close>: \<^verbatim>\<open>uid\<close> is the primary key and \<^verbatim>\<open>sortkey\<close> is declared
  \<^verbatim>\<open>UNIQUE\<close>, so a row whose uid or sortkey is already in the table is refused and
  \<^verbatim>\<open>sqlite3.IntegrityError\<close> is raised.
\<close>

definition insert_entry :: "entry_row \<Rightarrow> store \<Rightarrow> error + store" where
  "insert_entry r s =
     (if uid r \<in> set (map uid (entries s)) \<or> sortkey r \<in> set (map sortkey (entries s))
      then Inl IntegrityError
      else Inr (s\<lparr>entries := entries s @ [r]\<rparr>))"

definition insert_posdex_row :: "family \<Rightarrow> nat \<Rightarrow> ustr \<Rightarrow> int \<Rightarrow> int \<Rightarrow> store \<Rightarrow> store" where
  "insert_posdex_row f i syl u wlen s =
     s\<lparr>posdex := posdex s @
          [\<lparr>tbl_family = f, tbl_pos = i, syllable = syl, p_uid = u, p_length = wlen\<rparr>]\<rparr>"

definition insert_posdex :: "int \<Rightarrow> ustr \<Rightarrow> ustr \<Rightarrow> store \<Rightarrow> store" where
  "insert_posdex u w p s =
     (let wlen = int (length w);
          s1 = fold (\<lambda>(i, ch). insert_posdex_row HZ i [ch] u wlen) (enumerate 1 (take 4 w)) s;
          py_tokens = split_pron_tokens p
      in fold (\<lambda>(i, syl). insert_posdex_row PY i syl u wlen) (enumerate 1 (take 4 py_tokens)) s1)"

text \<open>
  \<^verbatim>\<open>str(n)\<close> for an integer.
\<close>

fun digits_of :: "nat \<Rightarrow> ustr" where
  "digits_of n = (if n < 10 then [48 + n] else digits_of (n div 10) @ [48 + n mod 10])"

declare digits_of.simps [simp del]

definition py_str :: "int \<Rightarrow> ustr" where
  "py_str i = (if i < 0 then 45 # digits_of (nat (- i)) else digits_of (nat i))"

text \<open>
  \<^verbatim>\<open>INSERT OR REPLACE INTO pleco_dict_properties\<close> under \<^verbatim>\<open>UNIQUE (propset, propid)\<close>.
\<close>

definition insert_or_replace_property :: "prop_row \<Rightarrow> store \<Rightarrow> store" where
  "insert_or_replace_property r s =
     s\<lparr>properties :=
          filter (\<lambda>q. \<not> (propset q = propset r \<and> propid q = propid r)) (properties s) @ [r]\<rparr>"

text \<open>
  What the run reads from outside the program: the clock, the two random draws of
  \<^verbatim>\<open>write_properties\<close> and the transcription library.
\<close>

record env =
  time_now :: int
  rand_file_id :: int
  rand_file_creator :: int
  pypinyin :: pinyin_fn

definition write_properties ::
  "env \<Rightarrow> ustr \<Rightarrow> ustr \<Rightarrow> ustr \<Rightarrow> ustr \<Rightarrow> int \<Rightarrow> int \<Rightarrow> store \<Rightarrow> store" where
  "write_properties e dict_name menu_name short_name icon entry_count now s =
     (let file_id = rand_file_id e;
          file_creator = rand_file_creator e;
          props =
            [(ascii ''DictIconFillColor'', ascii ''39372'', 0),
             (ascii ''DictIconName'', icon, 1),
             (ascii ''DictIconTextColor'', ascii ''16777215'', 0),
             (ascii ''DictLang'', ascii ''Chinese'', 1),
             (ascii ''DictMenuName'', menu_name, 1),
             (ascii ''DictName'', dict_name, 1),
             (ascii ''DictShortName'', short_name, 1),
             (ascii ''EntryCount'', py_str entry_count, 0),
             (ascii ''FileCreated'', py_str now, 0),
             (ascii ''FileCreator'', py_str file_creator, 0),
             (ascii ''FileGenerator'', ascii ''Pleco Engine 2.0'', 1),
             (ascii ''FileID'', py_str file_id, 0),
             (ascii ''FilePlatform'', ascii ''Android'', 1),
             (ascii ''FormatString'', ascii ''Pleco SQL Dictionary Database'', 1),
             (ascii ''FormatVersion'', ascii ''8'', 0),
             (ascii ''TransLang'', ascii ''English'', 1)]
      in fold (\<lambda>(pid, pvalue, pisstring).
                 insert_or_replace_property
                   \<lparr>propset = 0, propid = pid, propvalue = pvalue, propisstring = pisstring\<rparr>)
              props s)"

definition insert_import :: "int \<Rightarrow> int \<Rightarrow> int \<Rightarrow> int \<Rightarrow> store \<Rightarrow> store" where
  "insert_import st en first_uid last_uid s =
     s\<lparr>import_log := import_log s @
          [\<lparr>import_id = int (length (import_log s)) + 1, starttime = st, endtime = en,
            startentry = first_uid, endentry = last_uid\<rparr>]\<rparr>"

section \<open>Writing the artifact\<close>

text \<open>
  The loop of \<^verbatim>\<open>build_pqb\<close> over the sorted keys, with the running \<^verbatim>\<open>uid\<close> and the rows
  inserted so far. An exception leaves the loop.
\<close>

fun build_rows ::
  "pinyin_fn \<Rightarrow> int \<Rightarrow> entry_dict \<Rightarrow> ustr list \<Rightarrow> int \<Rightarrow> store \<Rightarrow> error + (int \<times> store)" where
  "build_rows pinyin now es [] u s = Inr (u, s)"
| "build_rows pinyin now es (ch # chs) u s =
     (case map_of es ch of
        None \<Rightarrow> Inl KeyError
      | Some d \<Rightarrow>
          let py = mandarin_pinyin_tone3 pinyin ch;
              pr = join (ascii '' '') py;
              sk0 = make_sortkey py ch;
              sk = (if sk0 \<noteq> [] then sk0 else ch)
          in (case insert_entry
                     \<lparr>uid = u, created = now, modified = now, len = 1, word = ch,
                      altword = None, pron = pr, defn = d, sortkey = sk\<rparr> s of
                Inl err \<Rightarrow> Inl err
              | Inr s' \<Rightarrow> build_rows pinyin now es chs (u + 1) (insert_posdex u ch pr s')))"

text \<open>
  The file system maps a path to the store committed in the file at that path.
  \<^verbatim>\<open>sqlite3.connect\<close> creates the file; \<^verbatim>\<open>executescript\<close> and the \<^verbatim>\<open>CREATE INDEX\<close> statements
  run outside any transaction, so the schema is in the file before the first row is
  inserted. The rows are inserted in one transaction, which \<^verbatim>\<open>con.commit()\<close> writes to the
  file. \<^verbatim>\<open>build_pqb\<close> handles no exception: when an insertion raises, the exception leaves
  the function, the open transaction is never committed, and the file stays as the schema
  statements left it.
\<close>

type_synonym filesystem = "ustr \<rightharpoonup> store"

definition build_pqb ::
  "env \<Rightarrow> entry_dict \<Rightarrow> ustr \<Rightarrow> ustr \<Rightarrow> ustr \<Rightarrow> ustr \<Rightarrow> ustr \<Rightarrow> filesystem
     \<Rightarrow> (error + unit) \<times> filesystem" where
  "build_pqb e es out_path dict_name menu_name short_name icon fs =
     (let fs1 = (if fs out_path \<noteq> None then fs(out_path := None) else fs);
          fs2 = fs1(out_path \<mapsto> schema_store);
          now = time_now e
      in case build_rows (pypinyin e) now es (sort (map fst es)) 1 schema_store of
           Inl err \<Rightarrow> (Inl err, fs2)
         | Inr (u, s) \<Rightarrow>
             let count = u - 1;
                 s1 = write_properties e dict_name menu_name short_name icon count now s;
                 s2 = insert_import now now 1 count s1
             in (Inr (), fs2(out_path \<mapsto> s2)))"

definition main ::
  "env \<Rightarrow> ustr \<Rightarrow> ustr \<Rightarrow> ustr \<Rightarrow> ustr \<Rightarrow> ustr \<Rightarrow> ustr \<Rightarrow> ustr \<Rightarrow> filesystem
     \<Rightarrow> (error + unit) \<times> filesystem" where
  "main e cj3_text cj5_text out_path dict_name menu_name short_name icon fs =
     (let cj3 = load_cangjie_table cj3_text;
          cj5 = load_cangjie_table cj5_text;
          es = compose_entries cj3 cj5
      in if es = []
         then (Inl (SystemExit
                 (ascii ''No entries found '' @ [0x2014] @
                  ascii '' check input file formats/paths.'')), fs)
         else build_pqb e es out_path dict_name menu_name short_name icon fs)"

section \<open>Reference definitions\<close>

text \<open>
  The composition of a definition as the specification words it: the display glyph of a
  lowercase Latin letter is looked up by position in the table of 26 glyphs, a section is
  three lines, and sections are separated by two line breaks.
\<close>

definition glyph_table :: ustr where
  "glyph_table =
     [0x65E5, 0x6708, 0x91D1, 0x6728, 0x6C34, 0x706B, 0x571F, 0x7AF9, 0x6208, 0x5341,
      0x5927, 0x4E2D, 0x4E00, 0x5F13, 0x4EBA, 0x5FC3, 0x624B, 0x53E3, 0x5C38, 0x5EFF,
      0x5C71, 0x5973, 0x7530, 0x96E3, 0x535C, 0x91CD]"

definition transliterate :: "ustr \<Rightarrow> ustr" where
  "transliterate code = map (\<lambda>c. if 97 \<le> c \<and> c \<le> 122 then glyph_table ! (c - 97) else c) code"

definition section_ref :: "ustr \<Rightarrow> ustr list \<Rightarrow> ustr" where
  "section_ref label codes =
     join PLECO_NL
       [label @ ascii '':'', join (ascii '' / '') (map transliterate codes),
        join (ascii '' / '') codes]"

definition reference_definition :: "ustr list \<Rightarrow> ustr list \<Rightarrow> ustr" where
  "reference_definition c3 c5 =
     (if c3 \<noteq> [] \<and> c5 \<noteq> [] \<and> c3 = c5 then section_ref (ascii ''Cangjie'') c3
      else join (PLECO_NL @ PLECO_NL)
             ((if c3 \<noteq> [] then [section_ref (ascii ''Cangjie3'') c3] else []) @
              (if c5 \<noteq> [] then [section_ref (ascii ''Cangjie5'') c5] else [])))"

text \<open>
  The tokens of a string: the maximal runs of characters that are not separators, found by
  one pass over the string.
\<close>

fun scan_tokens :: "(codepoint \<Rightarrow> bool) \<Rightarrow> ustr \<Rightarrow> ustr \<Rightarrow> ustr list" where
  "scan_tokens sep cur [] = (if cur = [] then [] else [rev cur])"
| "scan_tokens sep cur (c # cs) =
     (if sep c then (if cur = [] then scan_tokens sep [] cs else rev cur # scan_tokens sep [] cs)
      else scan_tokens sep (c # cur) cs)"

definition tokens :: "(codepoint \<Rightarrow> bool) \<Rightarrow> ustr \<Rightarrow> ustr list" where
  "tokens sep s = scan_tokens sep [] s"

text \<open>
  The index rows of an entry as the specification words them: one row per position for the
  first four codepoints of the word, one row per position for the first four tokens of the
  phonetic string, each with the full length of the word.
\<close>

definition hz_index_rows :: "int \<Rightarrow> ustr \<Rightarrow> posdex_row list" where
  "hz_index_rows u w =
     map (\<lambda>i. \<lparr>tbl_family = HZ, tbl_pos = i + 1, syllable = [w ! i], p_uid = u,
                p_length = int (length w)\<rparr>)
         [0..<min 4 (length w)]"

definition py_index_rows :: "int \<Rightarrow> ustr \<Rightarrow> ustr \<Rightarrow> posdex_row list" where
  "py_index_rows u w p =
     (let toks = tokens (\<lambda>c. is_space c \<or> c = 0x40) p
      in map (\<lambda>i. \<lparr>tbl_family = PY, tbl_pos = i + 1, syllable = toks ! i, p_uid = u,
                    p_length = int (length w)\<rparr>)
             [0..<min 4 (length toks)])"

text \<open>
  Acceptance of a line as the specification words it: after stripping the surrounding
  whitespace the line is not empty and does not start with \<^verbatim>\<open>#\<close>, it has at least two
  tokens, and the second token is one codepoint, inside one of the eleven ranges or equal to
  U+3007. The lines of a file are those of its text without leading byte-order marks.
\<close>

definition permitted_ideograph :: "codepoint \<Rightarrow> bool" where
  "permitted_ideograph c \<longleftrightarrow>
     (0x4E00 \<le> c \<and> c \<le> 0x9FFF) \<or> (0x3400 \<le> c \<and> c \<le> 0x4DBF) \<or>
     (0x20000 \<le> c \<and> c \<le> 0x2A6DF) \<or> (0x2A700 \<le> c \<and> c \<le> 0x2B73F) \<or>
     (0x2B740 \<le> c \<and> c \<le> 0x2B81D) \<or> (0x2B820 \<le> c \<and> c \<le> 0x2CEAD) \<or>
     (0x2CEB0 \<le> c \<and> c \<le> 0x2EBE0) \<or> (0x31350 \<le> c \<and> c \<le> 0x323AF) \<or>
     (0x2EBF0 \<le> c \<and> c \<le> 0x2EE5D) \<or> (0x323B0 \<le> c \<and> c \<le> 0x33479) \<or>
     (0x2F800 \<le> c \<and> c \<le> 0x2FA1F) \<or> c = 0x3007"

definition accepted_pair :: "ustr \<Rightarrow> (ustr \<times> ustr) option" where
  "accepted_pair raw =
     (let line = py_strip raw in
      if line = [] then None
      else if hd line = 0x23 then None
      else (case tokens is_space line of
              code # [c] # _ \<Rightarrow> if permitted_ideograph c then Some (code, [c]) else None
            | _ \<Rightarrow> None))"

definition file_lines :: "ustr \<Rightarrow> ustr list" where
  "file_lines text = splitlines (dropWhile (\<lambda>c. c = 0xFEFF) text)"

text \<open>
  The codes of a character in the order in which the lines of a file first give them,
  duplicates removed: the order the specification asks the composed definition to keep.
\<close>

definition first_occurrences :: "ustr list \<Rightarrow> ustr list" where
  "first_occurrences cs = rev (remdups (rev cs))"

definition first_seen_codes :: "ustr \<Rightarrow> ustr \<Rightarrow> ustr list" where
  "first_seen_codes text ch =
     first_occurrences
       (map fst (filter (\<lambda>p. snd p = ch) (List.map_filter accepted_pair (file_lines text))))"

text \<open>
  The rows that \<^verbatim>\<open>build_pqb\<close> writes, in closed form: the phonetic string and the sort
  key of a word, the entry row of a word under a uid, and the rows of a list of words
  numbered from a first uid.
\<close>

definition entry_pron :: "pinyin_fn \<Rightarrow> ustr \<Rightarrow> ustr" where
  "entry_pron pinyin ch = join (ascii '' '') (mandarin_pinyin_tone3 pinyin ch)"

definition entry_sortkey :: "pinyin_fn \<Rightarrow> ustr \<Rightarrow> ustr" where
  "entry_sortkey pinyin ch =
     (let sk0 = make_sortkey (mandarin_pinyin_tone3 pinyin ch) ch
      in if sk0 \<noteq> [] then sk0 else ch)"

definition entry_of :: "pinyin_fn \<Rightarrow> int \<Rightarrow> entry_dict \<Rightarrow> int \<Rightarrow> ustr \<Rightarrow> entry_row" where
  "entry_of pinyin now es u ch =
     \<lparr>uid = u, created = now, modified = now, len = 1, word = ch, altword = None,
      pron = entry_pron pinyin ch,
      defn = (case map_of es ch of None \<Rightarrow> [] | Some d \<Rightarrow> d),
      sortkey = entry_sortkey pinyin ch\<rparr>"

definition expected_entries ::
  "pinyin_fn \<Rightarrow> int \<Rightarrow> entry_dict \<Rightarrow> int \<Rightarrow> ustr list \<Rightarrow> entry_row list" where
  "expected_entries pinyin now es u chs =
     map (\<lambda>i. entry_of pinyin now es (u + int i) (chs ! i)) [0..<length chs]"

definition expected_posdex :: "pinyin_fn \<Rightarrow> int \<Rightarrow> ustr list \<Rightarrow> posdex_row list" where
  "expected_posdex pinyin u chs =
     concat (map (\<lambda>i. hz_index_rows (u + int i) (chs ! i) @
                       py_index_rows (u + int i) (chs ! i) (entry_pron pinyin (chs ! i)))
                 [0..<length chs])"

section \<open>Example inputs\<close>

text \<open>
  A transcription that knows no reading of any word: the error handler's \<^verbatim>\<open>[""]\<close> for the
  word as one unit. Another that reads U+65E5 as \<^verbatim>\<open>ri4\<close> and knows nothing else.
\<close>

definition no_reading :: pinyin_fn where
  "no_reading w = [[[]]]"

definition reads_ri :: pinyin_fn where
  "reads_ri w = (if w = [0x65E5] then [[ascii ''ri4'']] else [[[]]])"

definition example_env :: "pinyin_fn \<Rightarrow> env" where
  "example_env p = \<lparr>time_now = 1700000000, rand_file_id = 7, rand_file_creator = 9, pypinyin = p\<rparr>"

text \<open>
  The phonetic syllable of a single character: the first syllable of its transcription, the
  empty string when the transcription has none.
\<close>

definition first_syllable :: "ustr list \<Rightarrow> ustr" where
  "first_syllable py = (case py of [] \<Rightarrow> [] | syl # _ \<Rightarrow> syl)"

text \<open>
  The characters of the two files, each once, in the order in which the lines give them:
  the second field of every accepted line, the Cangjie3 file first.
\<close>

definition discovered_chars :: "ustr \<Rightarrow> ustr \<Rightarrow> ustr list" where
  "discovered_chars t3 t5 =
     remdups (map snd (List.map_filter accepted_pair (file_lines t3 @ file_lines t5)))"

section \<open>Verification\<close>

subsection \<open>Composition\<close>

lemma shape_of_letter:
  "(case map_of LATIN_TO_SHAPE c of None \<Rightarrow> [c] | Some g \<Rightarrow> g) =
     [if 97 \<le> c \<and> c \<le> 122 then glyph_table ! (c - 97) else c]"
proof -
  consider "c < 97" | "122 < c" | "97 \<le> c \<and> c \<le> 122"
    by linarith
  then show ?thesis
  proof cases
    case 1
    then show ?thesis by (simp add: LATIN_TO_SHAPE_def)
  next
    case 2
    then show ?thesis by (simp add: LATIN_TO_SHAPE_def)
  next
    case 3
    then have "c = 97 \<or> c = 98 \<or> c = 99 \<or> c = 100 \<or> c = 101 \<or> c = 102 \<or> c = 103 \<or> c = 104 \<or> c = 105 \<or> c = 106 \<or> c = 107 \<or> c = 108 \<or> c = 109 \<or> c = 110 \<or> c = 111 \<or> c = 112 \<or> c = 113 \<or> c = 114 \<or> c = 115 \<or> c = 116 \<or> c = 117 \<or> c = 118 \<or> c = 119 \<or> c = 120 \<or> c = 121 \<or> c = 122"
      by presburger
    then show ?thesis
      by (elim disjE) (simp_all add: LATIN_TO_SHAPE_def glyph_table_def)
  qed
qed

lemma latin_code_to_shapes_transliterate: "latin_code_to_shapes code = transliterate code"
  unfolding latin_code_to_shapes_def transliterate_def
  by (induction code) (simp_all add: shape_of_letter)

lemma fold_fromkeys:
  "distinct (ks @ cs) \<Longrightarrow> fold (\<lambda>c ks. if c \<in> set ks then ks else ks @ [c]) cs ks = ks @ cs"
  by (induction cs arbitrary: ks) auto

lemma dict_fromkeys_distinct: "distinct cs \<Longrightarrow> dict_fromkeys cs = cs"
  by (simp add: dict_fromkeys_def fold_fromkeys)

lemma sorted_set_eq: "sorted_set cs = sorted_list_of_set (set cs)"
  by (simp add: sorted_set_def sorted_list_of_set_sort_remdups)

lemma distinct_sorted_set: "distinct (sorted_set cs)"
  by (simp add: sorted_set_def)

lemma sorted_set_Nil: "sorted_set cs = [] \<longleftrightarrow> cs = []"
  by (metis sorted_set_def set_empty set_remdups set_sort)

lemma sorted_set_Nil2: "[] = sorted_set cs \<longleftrightarrow> cs = []"
  using sorted_set_Nil [of cs] by auto

lemma sorted_set_empty: "sorted_set [] = []"
  by (simp add: sorted_set_def)

lemma format_section_ref: "distinct codes \<Longrightarrow> format_section label codes = section_ref label codes"
  by (simp add: format_section_def section_ref_def dict_fromkeys_distinct Let_def
      latin_code_to_shapes_transliterate [abs_def])

lemma compose_entry_ref:
  "compose_entry cj3 cj5 ch =
     (if table_get cj3 ch = [] \<and> table_get cj5 ch = [] then None
      else Some (reference_definition (sorted_set (table_get cj3 ch)) (sorted_set (table_get cj5 ch))))"
  by (auto simp: compose_entry_def reference_definition_def Let_def format_section_ref
      distinct_sorted_set sorted_set_Nil sorted_set_Nil2 sorted_set_empty)

lemma map_of_fold_compose:
  "map_of (fold (\<lambda>ch es. case f ch of None \<Rightarrow> es | Some d \<Rightarrow> AList.update ch d es) chs es0) k =
     (if k \<in> set chs then (case f k of None \<Rightarrow> map_of es0 k | Some d \<Rightarrow> Some d)
      else map_of es0 k)"
  by (induction chs arbitrary: es0) (auto simp: update_conv' split: option.splits)

lemma map_of_compose_entries:
  "map_of (compose_entries cj3 cj5) ch =
     (if ch \<in> set (all_chars cj3 cj5) then compose_entry cj3 cj5 ch else None)"
  by (simp add: compose_entries_def map_of_fold_compose split: option.splits)

lemma table_get_key: "table_get t ch \<noteq> [] \<Longrightarrow> ch \<in> fst ` set t"
  by (auto simp: table_get_def split: option.splits dest: map_of_SomeD intro: rev_image_eqI)

text \<open>
  C1. For a character with at least one code in either system, the text stored by the loop
  of \<^verbatim>\<open>main\<close> is the reference composition of the two sorted, duplicate-free code lists:
  one section labelled \<^verbatim>\<open>Cangjie\<close> when both lists are non-empty and equal, otherwise one
  section per non-empty system, Cangjie3 first, joined by two U+EAB1; each section is the
  label line ending in a colon, the transliterated codes joined by \<^verbatim>\<open>" / "\<close> and the raw
  codes joined by \<^verbatim>\<open>" / "\<close>, the three lines joined by one U+EAB1.
\<close>

theorem composed_definition_matches_reference:
  assumes "table_get cj3 ch \<noteq> [] \<or> table_get cj5 ch \<noteq> []"
  shows "map_of (compose_entries cj3 cj5) ch =
           Some (reference_definition (sorted_list_of_set (set (table_get cj3 ch)))
                                      (sorted_list_of_set (set (table_get cj5 ch))))"
proof -
  from assms have "ch \<in> set (all_chars cj3 cj5)"
    using table_get_key [of cj3 ch] table_get_key [of cj5 ch]
    by (auto simp: all_chars_def)
  with assms show ?thesis
    by (auto simp: map_of_compose_entries compose_entry_ref sorted_set_eq)
qed


theorem composed_definition_matches_reference_witness:
  "table_get [([0x65E5], [[98], [97]])] [0x65E5] \<noteq> [] \<and>
   map_of (compose_entries [([0x65E5], [[98], [97]])] [([0x65E5], [[97]])]) [0x65E5] =
     Some [67, 97, 110, 103, 106, 105, 101, 51, 58, 60081, 26085, 32, 47, 32, 26376, 60081,
           97, 32, 47, 32, 98, 60081, 60081, 67, 97, 110, 103, 106, 105, 101, 53, 58, 60081,
           26085, 60081, 97]"
  using composed_definition_matches_reference
    [of "[([0x65E5], [[98], [97]])]" "[0x65E5]" "[([0x65E5], [[97]])]"]
  by (simp add: table_get_def reference_definition_def section_ref_def transliterate_def
      glyph_table_def ascii_def PLECO_NL_def sorted_list_of_set_sort_remdups)

subsection \<open>Tokens\<close>

lemma scan_tokens_run:
  "\<forall>c\<in>set xs. \<not> sep c \<Longrightarrow> scan_tokens sep cur (xs @ ys) = scan_tokens sep (rev xs @ cur) ys"
  by (induction xs arbitrary: cur) simp_all

lemma scan_tokens_skip:
  "\<forall>c\<in>set xs. sep c \<Longrightarrow> scan_tokens sep [] (xs @ ys) = scan_tokens sep [] ys"
  by (induction xs) simp_all

lemma scan_tokens_dropWhile:
  assumes "\<And>c. P c \<Longrightarrow> sep c"
  shows "scan_tokens sep [] (dropWhile P s) = scan_tokens sep [] s"
proof -
  have "scan_tokens sep [] (takeWhile P s @ dropWhile P s) = scan_tokens sep [] (dropWhile P s)"
    by (rule scan_tokens_skip) (auto dest: set_takeWhileD assms)
  then show ?thesis by simp
qed

lemma scan_tokens_trailing:
  "\<forall>c\<in>set ys. sep c \<Longrightarrow> scan_tokens sep cur (xs @ ys) = scan_tokens sep cur xs"
proof (induction xs arbitrary: cur)
  case Nil
  then show ?case
    by (induction ys arbitrary: cur) (simp_all add: scan_tokens_skip [where ys = "[]", simplified])
next
  case (Cons x xs)
  then show ?case by simp
qed

lemma scan_tokens_rstrip:
  assumes "\<And>c. P c \<Longrightarrow> sep c"
  shows "scan_tokens sep cur (py_rstrip P s) = scan_tokens sep cur s"
proof -
  have "s = py_rstrip P s @ rev (takeWhile P (rev s))"
    unfolding py_rstrip_def
    by (metis rev_append rev_rev_ident takeWhile_dropWhile_id)
  moreover have "\<forall>c\<in>set (rev (takeWhile P (rev s))). sep c"
    by (auto dest: set_takeWhileD assms)
  ultimately show ?thesis
    using scan_tokens_trailing [of "rev (takeWhile P (rev s))" sep cur "py_rstrip P s"] by simp
qed

lemma tokens_strip:
  assumes "\<And>c. is_space c \<Longrightarrow> sep c"
  shows "tokens sep (py_strip s) = tokens sep s"
  unfolding tokens_def py_strip_def py_lstrip_def
  by (simp add: scan_tokens_rstrip assms scan_tokens_dropWhile)

lemma re_split_tokens: "filter (\<lambda>t. t \<noteq> []) (re_split sep s) = tokens sep s"
proof (induction sep s rule: re_split.induct)
  case (1 sep s)
  define piece where "piece = takeWhile (\<lambda>c. \<not> sep c) s"
  define rest where "rest = dropWhile (\<lambda>c. \<not> sep c) s"
  have s: "s = piece @ rest"
    by (simp add: piece_def rest_def)
  have run: "\<forall>c\<in>set piece. \<not> sep c"
    by (auto simp: piece_def dest: set_takeWhileD)
  have scan: "tokens sep s = scan_tokens sep (rev piece) rest"
    unfolding tokens_def s using scan_tokens_run [OF run, of "[]" rest] by simp
  show ?case
  proof (cases "rest = []")
    case True
    then show ?thesis
      using scan by (subst re_split.simps) (simp add: piece_def [symmetric] rest_def [symmetric])
  next
    case False
    then obtain c cs where rest: "rest = c # cs"
      by (cases rest) auto
    have "\<not> \<not> sep (hd rest)"
      unfolding rest_def by (rule hd_dropWhile) (use False in \<open>simp add: rest_def\<close>)
    then have c: "sep c"
      by (simp add: rest)
    have ih: "filter (\<lambda>t. t \<noteq> []) (re_split sep (dropWhile sep rest)) =
                tokens sep (dropWhile sep rest)"
      using 1 [OF piece_def rest_def False] .
    have "tokens sep (dropWhile sep rest) = scan_tokens sep [] cs"
      unfolding tokens_def using scan_tokens_dropWhile [of sep sep rest] c
      by (simp add: rest)
    with ih scan c False show ?thesis
      by (subst re_split.simps)
         (simp add: piece_def [symmetric] rest_def [symmetric] rest)
  qed
qed

lemma split_pron_tokens_tokens:
  "split_pron_tokens p = tokens (\<lambda>c. is_space c \<or> c = 0x40) p"
  unfolding split_pron_tokens_def
  by (simp add: re_split_tokens tokens_strip)


subsection \<open>Index rows\<close>

lemma fold_insert_posdex_row:
  "fold (\<lambda>(i, x). insert_posdex_row f i (g x) u l) xs s =
     s\<lparr>posdex := posdex s @
          map (\<lambda>(i, x). \<lparr>tbl_family = f, tbl_pos = i, syllable = g x, p_uid = u, p_length = l\<rparr>) xs\<rparr>"
  by (induction xs arbitrary: s) (auto simp: insert_posdex_row_def)

lemma map_enumerate_index:
  "map (\<lambda>(i, x). h i x) (enumerate n xs) = map (\<lambda>i. h (n + i) (xs ! i)) [0..<length xs]"
  by (rule nth_equalityI) (simp_all add: nth_enumerate_eq)

lemma insert_posdex_eq:
  "insert_posdex u w p s =
     s\<lparr>posdex := posdex s @ hz_index_rows u w @ py_index_rows u w p\<rparr>"
proof -
  have hz: "map (\<lambda>(i, ch). \<lparr>tbl_family = HZ, tbl_pos = i, syllable = [ch], p_uid = u,
                              p_length = int (length w)\<rparr>) (enumerate (Suc 0) (take 4 w)) =
            hz_index_rows u w"
    unfolding hz_index_rows_def map_enumerate_index
    by (rule nth_equalityI) (simp_all add: min.commute)
  have py: "map (\<lambda>(i, syl). \<lparr>tbl_family = PY, tbl_pos = i, syllable = syl, p_uid = u,
                               p_length = int (length w)\<rparr>)
              (enumerate (Suc 0) (take 4 (split_pron_tokens p))) =
            py_index_rows u w p"
    unfolding py_index_rows_def map_enumerate_index split_pron_tokens_tokens Let_def
    by (rule nth_equalityI) (simp_all add: min.commute)
  show ?thesis
    unfolding insert_posdex_def Let_def
    by (simp add: fold_insert_posdex_row [where g = "\<lambda>ch. [ch]"]
        fold_insert_posdex_row [where g = "\<lambda>syl. syl"] hz py)
qed

text \<open>
  C6. \<^verbatim>\<open>insert_posdex\<close> changes nothing but the index tables, and appends to them the rows of
  the first four codepoints of the word, one per position from 1, then the rows of the first
  four tokens of the phonetic string split on runs of whitespace or \<^verbatim>\<open>@\<close>, one per position
  from 1. Each family gets at most four rows, and every row carries the length of the whole
  word.
\<close>

theorem insert_posdex_at_most_four_rows:
  "posdex (insert_posdex u w p s) = posdex s @ hz_index_rows u w @ py_index_rows u w p \<and>
   length (hz_index_rows u w) = min 4 (length w) \<and>
   length (py_index_rows u w p) = min 4 (length (tokens (\<lambda>c. is_space c \<or> c = 0x40) p)) \<and>
   length (hz_index_rows u w) \<le> 4 \<and> length (py_index_rows u w p) \<le> 4 \<and>
   (\<forall>r \<in> set (hz_index_rows u w @ py_index_rows u w p). p_uid r = u \<and> p_length r = int (length w)) \<and>
   entries (insert_posdex u w p s) = entries s \<and>
   import_log (insert_posdex u w p s) = import_log s \<and>
   properties (insert_posdex u w p s) = properties s"
  by (auto simp: insert_posdex_eq hz_index_rows_def py_index_rows_def Let_def)


lemma upt_0_4: "[0..<4] = [0, 1, 2, 3]"
  by (simp add: eval_nat_numeral)

theorem insert_posdex_at_most_four_rows_witness:
  "posdex (insert_posdex 7 [0x4E00, 0x4E01, 0x4E02, 0x4E03, 0x4E04]
             [97, 32, 98, 64, 99, 32, 32, 100, 32, 101] schema_store) =
     [\<lparr>tbl_family = HZ, tbl_pos = 1, syllable = [0x4E00], p_uid = 7, p_length = 5\<rparr>,
      \<lparr>tbl_family = HZ, tbl_pos = 2, syllable = [0x4E01], p_uid = 7, p_length = 5\<rparr>,
      \<lparr>tbl_family = HZ, tbl_pos = 3, syllable = [0x4E02], p_uid = 7, p_length = 5\<rparr>,
      \<lparr>tbl_family = HZ, tbl_pos = 4, syllable = [0x4E03], p_uid = 7, p_length = 5\<rparr>,
      \<lparr>tbl_family = PY, tbl_pos = 1, syllable = [97], p_uid = 7, p_length = 5\<rparr>,
      \<lparr>tbl_family = PY, tbl_pos = 2, syllable = [98], p_uid = 7, p_length = 5\<rparr>,
      \<lparr>tbl_family = PY, tbl_pos = 3, syllable = [99], p_uid = 7, p_length = 5\<rparr>,
      \<lparr>tbl_family = PY, tbl_pos = 4, syllable = [100], p_uid = 7, p_length = 5\<rparr>]"
  using insert_posdex_at_most_four_rows
    [of 7 "[0x4E00, 0x4E01, 0x4E02, 0x4E03, 0x4E04]"
        "[97, 32, 98, 64, 99, 32, 32, 100, 32, 101]" schema_store]
  by (simp add: hz_index_rows_def py_index_rows_def tokens_def is_space_def schema_store_def
      upt_0_4)

subsection \<open>Accepted lines\<close>

lemma py_strip_ends:
  assumes "py_strip raw \<noteq> []"
  shows "\<not> is_space (hd (py_strip raw))" and "\<not> is_space (last (py_strip raw))"
proof -
  define t where "t = dropWhile is_space raw"
  have strip: "py_strip raw = rev (dropWhile is_space (rev t))"
    by (simp add: py_strip_def py_rstrip_def py_lstrip_def t_def)
  from assms have ne: "dropWhile is_space (rev t) \<noteq> []"
    by (simp add: strip)
  then have "\<not> is_space (hd (dropWhile is_space (rev t)))"
    by (rule hd_dropWhile)
  then show "\<not> is_space (last (py_strip raw))"
    using ne by (simp add: strip last_rev)
  from ne have "t \<noteq> []"
    by auto
  then have "\<not> is_space (hd t)"
    unfolding t_def by (rule hd_dropWhile)
  moreover have "t = py_strip raw @ rev (takeWhile is_space (rev t))"
    unfolding strip by (metis rev_append rev_rev_ident takeWhile_dropWhile_id)
  then have "hd t = hd (py_strip raw)"
    using assms by (metis hd_append2)
  ultimately show "\<not> is_space (hd (py_strip raw))"
    by simp
qed

lemma dropWhile_keeps_last:
  "xs \<noteq> [] \<Longrightarrow> \<not> P (last xs) \<Longrightarrow> dropWhile P xs \<noteq> [] \<and> last (dropWhile P xs) = last xs"
  by (induction xs) (auto split: if_splits)

lemma re_split_no_empty:
  "s \<noteq> [] \<Longrightarrow> \<not> sep (hd s) \<Longrightarrow> \<not> sep (last s) \<Longrightarrow> [] \<notin> set (re_split sep s)"
proof (induction sep s rule: re_split.induct)
  case (1 sep s)
  define piece where "piece = takeWhile (\<lambda>c. \<not> sep c) s"
  define rest where "rest = dropWhile (\<lambda>c. \<not> sep c) s"
  have s: "s = piece @ rest"
    by (simp add: piece_def rest_def)
  from 1(2,3) have piece: "piece \<noteq> []"
    unfolding piece_def by (cases s) auto
  show ?case
  proof (cases "rest = []")
    case True
    then show ?thesis
      using piece by (subst re_split.simps) (simp add: piece_def [symmetric] rest_def [symmetric])
  next
    case False
    define rest' where "rest' = dropWhile sep rest"
    from False have last: "last rest = last s"
      using s by (metis last_appendR)
    with 1(4) have "\<not> sep (last rest)"
      by simp
    with False have ne: "rest' \<noteq> []" and last': "last rest' = last rest"
      unfolding rest'_def using dropWhile_keeps_last [of rest sep] by simp_all
    from ne have hd: "\<not> sep (hd rest')"
      unfolding rest'_def by (rule hd_dropWhile)
    from 1(4) last last' have "\<not> sep (last rest')"
      by simp
    with 1(1) [OF piece_def rest_def False] ne hd have "[] \<notin> set (re_split sep rest')"
      by (simp add: rest'_def)
    with piece False show ?thesis
      by (subst re_split.simps)
         (simp add: piece_def [symmetric] rest_def [symmetric] rest'_def)
  qed
qed

lemma scan_tokens_clean:
  "t \<in> set (scan_tokens sep cur s) \<Longrightarrow> \<forall>c\<in>set cur. \<not> sep c \<Longrightarrow> t \<noteq> [] \<and> (\<forall>c\<in>set t. \<not> sep c)"
proof (induction s arbitrary: cur)
  case Nil
  then show ?case
    by (cases "cur = []") simp_all
next
  case (Cons c s)
  show ?case
  proof (cases "sep c")
    case True
    show ?thesis
    proof (cases "cur = []")
      case True
      with \<open>sep c\<close> Cons.prems(1) have "t \<in> set (scan_tokens sep [] s)"
        by simp
      then show ?thesis
        by (rule Cons.IH) simp
    next
      case False
      with \<open>sep c\<close> Cons.prems(1) have "t = rev cur \<or> t \<in> set (scan_tokens sep [] s)"
        by simp
      then show ?thesis
      proof
        assume "t = rev cur"
        with False Cons.prems(2) show ?thesis
          by simp
      next
        assume "t \<in> set (scan_tokens sep [] s)"
        then show ?thesis
          by (rule Cons.IH) simp
      qed
    qed
  next
    case False
    with Cons.prems(1) have "t \<in> set (scan_tokens sep (c # cur) s)"
      by simp
    then show ?thesis
      by (rule Cons.IH) (use False Cons.prems(2) in simp)
  qed
qed

lemma tokens_clean: "t \<in> set (tokens sep s) \<Longrightarrow> t \<noteq> [] \<and> (\<forall>c\<in>set t. \<not> sep c)"
  unfolding tokens_def using scan_tokens_clean [of t sep "[]" s] by simp

lemma dropWhile_none: "\<forall>c\<in>set xs. \<not> P c \<Longrightarrow> dropWhile P xs = xs"
  by (cases xs) simp_all

lemma py_strip_clean: "\<forall>c\<in>set t. \<not> is_space c \<Longrightarrow> py_strip t = t"
proof -
  assume a: "\<forall>c\<in>set t. \<not> is_space c"
  then have "dropWhile is_space t = t"
    by (rule dropWhile_none)
  moreover have "dropWhile is_space (rev t) = rev t"
    by (rule dropWhile_none) (use a in simp)
  ultimately show ?thesis
    by (simp add: py_strip_def py_lstrip_def py_rstrip_def)
qed

lemma re_split_stripped:
  assumes "py_strip raw \<noteq> []"
  shows "re_split is_space (py_strip raw) = tokens is_space (py_strip raw)"
proof -
  have "[] \<notin> set (re_split is_space (py_strip raw))"
    using assms py_strip_ends [OF assms] by (intro re_split_no_empty)
  then have "filter (\<lambda>t. t \<noteq> []) (re_split is_space (py_strip raw)) =
               re_split is_space (py_strip raw)"
    by (simp add: filter_id_conv) metis
  then show ?thesis
    by (simp add: re_split_tokens)
qed

lemma is_cjk_word_single: "is_cjk_word [c] \<longleftrightarrow> permitted_ideograph c"
  by (auto simp: is_cjk_word_def permitted_ideograph_def CJK_RANGES_def EXTRA_ALLOWED_def)

lemma parse_line_accepted: "parse_line raw = accepted_pair raw"
proof (cases "py_strip raw = []")
  case True
  then show ?thesis
    by (simp add: parse_line_def accepted_pair_def)
next
  case False
  define toks where "toks = tokens is_space (py_strip raw)"
  have parts: "re_split is_space (py_strip raw) = toks"
    unfolding toks_def using False by (rule re_split_stripped)
  have clean: "py_strip t = t \<and> t \<noteq> []" if "t \<in> set toks" for t
    using tokens_clean [of t is_space "py_strip raw"] that
    by (simp add: toks_def py_strip_clean)
  have hash: "take (Suc 0) (py_strip raw) = ascii ''#'' \<longleftrightarrow> hd (py_strip raw) = 0x23"
    using False by (cases "py_strip raw") (simp_all add: ascii_def)
  show ?thesis
  proof (cases toks)
    case Nil
    then show ?thesis
      using False by (simp add: parse_line_def accepted_pair_def Let_def parts hash toks_def [symmetric])
  next
    case (Cons code rest)
    note outer = Cons
    show ?thesis
    proof (cases rest)
      case Nil
      then show ?thesis
        using False outer
        by (simp add: parse_line_def accepted_pair_def Let_def parts hash toks_def [symmetric])
    next
      case (Cons char rest')
      have "py_strip code = code" "code \<noteq> []" "py_strip char = char" "char \<noteq> []"
        using clean [of code] clean [of char] outer Cons by simp_all
      then show ?thesis
        using False outer Cons
        by (cases char; cases "tl char")
           (auto simp: parse_line_def accepted_pair_def Let_def parts hash toks_def [symmetric]
              is_cjk_word_single)
    qed
  qed
qed


subsection \<open>The loaded table\<close>

lemma table_get_Nil: "table_get [] ch = []"
  by (simp add: table_get_def)

lemma table_get_table_add:
  "set (table_get (table_add char code t) ch) =
     set (table_get t ch) \<union> (if ch = char then {code} else {})"
  by (auto simp: table_get_def table_add_def update_conv' map_add_def
      split: option.splits if_splits)

lemma table_get_load_line:
  "set (table_get (load_line raw t) ch) =
     set (table_get t ch) \<union> {code. parse_line raw = Some (code, ch)}"
  by (cases "parse_line raw") (auto simp: load_line_def table_get_table_add split: if_splits)

lemma table_get_fold_load_line:
  "set (table_get (fold load_line lines t) ch) =
     set (table_get t ch) \<union> {code. \<exists>raw\<in>set lines. parse_line raw = Some (code, ch)}"
proof (induction lines arbitrary: t)
  case Nil
  show ?case by simp
next
  case (Cons raw lines)
  show ?case
    unfolding fold_simps Cons.IH table_get_load_line by auto
qed

lemma fold_load_line_rejected:
  "\<forall>raw\<in>set lines. parse_line raw = None \<Longrightarrow> fold load_line lines t = t"
  by (induction lines arbitrary: t) (simp_all add: load_line_def)

lemma load_cangjie_table_lines:
  "load_cangjie_table text = fold load_line (file_lines text) []"
  by (simp add: load_cangjie_table_def file_lines_def py_lstrip_def)

text \<open>
  C7. A line is accepted exactly when the specification's test accepts it, and then with
  the same code and character; a code is in the loaded table under a character exactly when
  some line of the file is accepted with that code and character; and a file none of whose
  lines is accepted, the empty file among them, loads as the empty table. The loader has no
  error result.
\<close>

theorem loader_accepts_exactly_the_wellformed_lines:
  "parse_line raw = accepted_pair raw \<and>
   (code \<in> set (table_get (load_cangjie_table text) ch) \<longleftrightarrow>
      (\<exists>raw\<in>set (file_lines text). accepted_pair raw = Some (code, ch))) \<and>
   ((\<forall>raw\<in>set (file_lines text). accepted_pair raw = None) \<longrightarrow>
      load_cangjie_table text = []) \<and>
   load_cangjie_table [] = []"
proof (intro conjI impI)
  show "parse_line raw = accepted_pair raw"
    by (rule parse_line_accepted)
  show "code \<in> set (table_get (load_cangjie_table text) ch) \<longleftrightarrow>
          (\<exists>raw\<in>set (file_lines text). accepted_pair raw = Some (code, ch))"
    by (simp add: load_cangjie_table_lines table_get_fold_load_line parse_line_accepted
        table_get_Nil)
  show "load_cangjie_table text = []"
    if "\<forall>raw\<in>set (file_lines text). accepted_pair raw = None"
    using that by (simp add: load_cangjie_table_lines fold_load_line_rejected parse_line_accepted)
  show "load_cangjie_table [] = []"
    by (simp add: load_cangjie_table_lines file_lines_def splitlines_def)
qed


lemmas line_eval =
  accepted_pair_def py_strip_def py_lstrip_def py_rstrip_def tokens_def is_space_def
  permitted_ideograph_def file_lines_def splitlines_def is_linebreak_def

theorem loader_accepts_exactly_the_wellformed_lines_witness:
  "parse_line [97, 9, 0x65E5, 9, 53, 48, 48] = Some ([97], [0x65E5]) \<and>
   [97] \<in> set (table_get (load_cangjie_table
       [0xFEFF, 35, 32, 99, 10, 97, 9, 0x65E5, 9, 53, 48, 48, 10, 98, 32, 120]) [0x65E5]) \<and>
   load_cangjie_table [35, 32, 99, 10, 122, 122, 32, 0x65E5, 0x6708, 10, 113] = []"
proof -
  have lines: "file_lines [35, 32, 99, 10, 122, 122, 32, 0x65E5, 0x6708, 10, 113] =
                 [[35, 32, 99], [122, 122, 32, 0x65E5, 0x6708], [113]]"
    by (simp add: line_eval)
  have rejected: "accepted_pair [35, 32, 99] = None"
    "accepted_pair [122, 122, 32, 0x65E5, 0x6708] = None" "accepted_pair [113] = None"
    by (simp_all add: line_eval)
  have accepted: "accepted_pair [97, 9, 0x65E5, 9, 53, 48, 48] = Some ([97], [0x65E5])"
    by (simp add: line_eval)
  have lines': "file_lines [0xFEFF, 35, 32, 99, 10, 97, 9, 0x65E5, 9, 53, 48, 48, 10, 98, 32, 120] =
                  [[35, 32, 99], [97, 9, 0x65E5, 9, 53, 48, 48], [98, 32, 120]]"
    by (simp add: line_eval)
  show ?thesis
    using loader_accepts_exactly_the_wellformed_lines
        [of "[97, 9, 0x65E5, 9, 53, 48, 48]" "[97]"
            "[0xFEFF, 35, 32, 99, 10, 97, 9, 0x65E5, 9, 53, 48, 48, 10, 98, 32, 120]" "[0x65E5]"]
      loader_accepts_exactly_the_wellformed_lines
        [of "[]" "[]" "[35, 32, 99, 10, 122, 122, 32, 0x65E5, 0x6708, 10, 113]" "[]"]
    by (simp add: lines lines' rejected accepted)
qed

subsection \<open>Order of the codes\<close>

lemma set_map_filter_Some: "set (List.map_filter f xs) = {y. \<exists>x\<in>set xs. f x = Some y}"
  by (induction xs) (auto split: option.splits)

lemma set_first_seen_codes:
  "set (first_seen_codes text ch) =
     {code. \<exists>raw\<in>set (file_lines text). accepted_pair raw = Some (code, ch)}"
proof -
  have "set (first_seen_codes text ch) =
          fst ` {p \<in> set (List.map_filter accepted_pair (file_lines text)). snd p = ch}"
    by (simp add: first_seen_codes_def first_occurrences_def)
  also have "\<dots> = {code. (code, ch) \<in> set (List.map_filter accepted_pair (file_lines text))}"
    by force
  finally show ?thesis
    by (simp add: set_map_filter_Some)
qed

lemma set_table_get_load:
  "set (table_get (load_cangjie_table text) ch) = set (first_seen_codes text ch)"
  by (simp add: set_first_seen_codes load_cangjie_table_lines table_get_fold_load_line
      parse_line_accepted table_get_Nil)

lemma table_get_absent: "ch \<notin> fst ` set t \<Longrightarrow> table_get t ch = []"
  using table_get_key [of t ch] by blast

lemma map_of_compose_entries_ref:
  "map_of (compose_entries cj3 cj5) ch =
     (if table_get cj3 ch = [] \<and> table_get cj5 ch = [] then None
      else Some (reference_definition (sorted_list_of_set (set (table_get cj3 ch)))
                                      (sorted_list_of_set (set (table_get cj5 ch)))))"
proof (cases "ch \<in> set (all_chars cj3 cj5)")
  case True
  then show ?thesis
    by (simp add: map_of_compose_entries compose_entry_ref sorted_set_eq)
next
  case False
  then have "table_get cj3 ch = []" "table_get cj5 ch = []"
    by (auto simp: all_chars_def intro: table_get_absent)
  with False show ?thesis
    by (simp add: map_of_compose_entries)
qed

lemma loaded_entry:
  "map_of (compose_entries (load_cangjie_table t3) (load_cangjie_table t5)) ch =
     (if first_seen_codes t3 ch = [] \<and> first_seen_codes t5 ch = [] then None
      else Some (reference_definition (sorted_list_of_set (set (first_seen_codes t3 ch)))
                                      (sorted_list_of_set (set (first_seen_codes t5 ch)))))"
proof -
  have "table_get (load_cangjie_table t) ch = [] \<longleftrightarrow> first_seen_codes t ch = []" for t
    using set_table_get_load [of t ch] by (metis set_empty)
  then show ?thesis
    by (simp add: map_of_compose_entries_ref set_table_get_load)
qed

lemma first_seen_codes_lines:
  "set (file_lines t') = set (file_lines t) \<Longrightarrow>
     set (first_seen_codes t' ch) = set (first_seen_codes t ch)"
  by (simp add: set_first_seen_codes)

text \<open>
  C5, as the code has it. \<^verbatim>\<open>main\<close> passes \<^verbatim>\<open>sorted(cj.get(ch, set()))\<close> to \<^verbatim>\<open>format_section\<close>, so
  the codes of a definition are in ascending order of the code strings, duplicates removed,
  whatever the order in which the file gave them: two files with the same lines in
  different orders compose the same definitions.
\<close>

theorem composed_codes_are_sorted:
  assumes "first_seen_codes t3 ch \<noteq> [] \<or> first_seen_codes t5 ch \<noteq> []"
  shows "map_of (compose_entries (load_cangjie_table t3) (load_cangjie_table t5)) ch =
           Some (reference_definition (sorted_list_of_set (set (first_seen_codes t3 ch)))
                                      (sorted_list_of_set (set (first_seen_codes t5 ch)))) \<and>
         (\<forall>t3' t5'. set (file_lines t3') = set (file_lines t3) \<and>
                    set (file_lines t5') = set (file_lines t5) \<longrightarrow>
            map_of (compose_entries (load_cangjie_table t3') (load_cangjie_table t5')) ch =
            map_of (compose_entries (load_cangjie_table t3) (load_cangjie_table t5)) ch)"
proof (intro conjI allI impI)
  from assms have "\<not> (first_seen_codes t3 ch = [] \<and> first_seen_codes t5 ch = [])"
    by blast
  then show "map_of (compose_entries (load_cangjie_table t3) (load_cangjie_table t5)) ch =
          Some (reference_definition (sorted_list_of_set (set (first_seen_codes t3 ch)))
                                     (sorted_list_of_set (set (first_seen_codes t5 ch))))"
    by (simp only: loaded_entry if_False)
next
  fix t3' t5'
  assume same: "set (file_lines t3') = set (file_lines t3) \<and>
                set (file_lines t5') = set (file_lines t5)"
  have s3: "set (first_seen_codes t3' ch) = set (first_seen_codes t3 ch)"
    by (rule first_seen_codes_lines) (use same in blast)
  have s5: "set (first_seen_codes t5' ch) = set (first_seen_codes t5 ch)"
    by (rule first_seen_codes_lines) (use same in blast)
  have "set (first_seen_codes t3' ch) = {} \<longleftrightarrow> set (first_seen_codes t3 ch) = {}"
    by (simp only: s3)
  then have e3: "first_seen_codes t3' ch = [] \<longleftrightarrow> first_seen_codes t3 ch = []"
    by (simp only: set_empty)
  have "set (first_seen_codes t5' ch) = {} \<longleftrightarrow> set (first_seen_codes t5 ch) = {}"
    by (simp only: s5)
  then have e5: "first_seen_codes t5' ch = [] \<longleftrightarrow> first_seen_codes t5 ch = []"
    by (simp only: set_empty)
  show "map_of (compose_entries (load_cangjie_table t3') (load_cangjie_table t5')) ch =
          map_of (compose_entries (load_cangjie_table t3) (load_cangjie_table t5)) ch"
    by (simp only: loaded_entry s3 s5 e3 e5)
qed


lemmas definition_eval =
  reference_definition_def section_ref_def transliterate_def glyph_table_def ascii_def
  PLECO_NL_def sorted_list_of_set_sort_remdups

lemma first_seen_example:
  "first_seen_codes [98, 9, 0x65E5, 10, 97, 9, 0x65E5] [0x65E5] = [[98], [97]]"
  "first_seen_codes [] [0x65E5] = []"
  by (simp_all add: first_seen_codes_def first_occurrences_def line_eval)

theorem composed_codes_are_sorted_witness:
  "map_of (compose_entries (load_cangjie_table [98, 9, 0x65E5, 10, 97, 9, 0x65E5])
                           (load_cangjie_table [])) [0x65E5] =
     Some [67, 97, 110, 103, 106, 105, 101, 51, 58, 60081, 26085, 32, 47, 32, 26376, 60081,
           97, 32, 47, 32, 98] \<and>
   map_of (compose_entries (load_cangjie_table [97, 9, 0x65E5, 10, 98, 9, 0x65E5])
                           (load_cangjie_table [])) [0x65E5] =
   map_of (compose_entries (load_cangjie_table [98, 9, 0x65E5, 10, 97, 9, 0x65E5])
                           (load_cangjie_table [])) [0x65E5]"
proof -
  have hyp: "first_seen_codes [98, 9, 0x65E5, 10, 97, 9, 0x65E5] [0x65E5] \<noteq> [] \<or>
             first_seen_codes [] [0x65E5] \<noteq> []"
    by (simp add: first_seen_example)
  have lines: "set (file_lines [97, 9, 0x65E5, 10, 98, 9, 0x65E5]) =
               set (file_lines [98, 9, 0x65E5, 10, 97, 9, 0x65E5])"
    by (auto simp: line_eval)
  note sorted = composed_codes_are_sorted [OF hyp]
  from sorted have
    "map_of (compose_entries (load_cangjie_table [98, 9, 0x65E5, 10, 97, 9, 0x65E5])
                             (load_cangjie_table [])) [0x65E5] =
       Some [67, 97, 110, 103, 106, 105, 101, 51, 58, 60081, 26085, 32, 47, 32, 26376, 60081,
             97, 32, 47, 32, 98]"
    by (simp add: first_seen_example definition_eval)
  moreover from sorted lines have
    "map_of (compose_entries (load_cangjie_table [97, 9, 0x65E5, 10, 98, 9, 0x65E5])
                             (load_cangjie_table [])) [0x65E5] =
     map_of (compose_entries (load_cangjie_table [98, 9, 0x65E5, 10, 97, 9, 0x65E5])
                             (load_cangjie_table [])) [0x65E5]"
    by blast
  ultimately show ?thesis
    by (rule conjI)
qed

text \<open>
  C5 as it is stated fails. The file \<^verbatim>\<open>b<TAB>U+65E5\<close>, \<^verbatim>\<open>a<TAB>U+65E5\<close> gives the codes in the
  order b, a; the composed definition lists them as a, b.
\<close>

theorem first_seen_order_counterexample:
  "first_seen_codes [98, 9, 0x65E5, 10, 97, 9, 0x65E5] [0x65E5] = [[98], [97]] \<and>
   map_of (compose_entries (load_cangjie_table [98, 9, 0x65E5, 10, 97, 9, 0x65E5])
                           (load_cangjie_table [])) [0x65E5] \<noteq>
     Some (reference_definition (first_seen_codes [98, 9, 0x65E5, 10, 97, 9, 0x65E5] [0x65E5])
                                (first_seen_codes [] [0x65E5]))"
  by (simp add: loaded_entry first_seen_example definition_eval)

subsection \<open>The loop of the writer\<close>

lemma expected_entries_Nil: "expected_entries pinyin now es u [] = []"
  by (simp add: expected_entries_def)

lemma expected_entries_Cons:
  "expected_entries pinyin now es u (ch # chs) =
     entry_of pinyin now es u ch # expected_entries pinyin now es (u + 1) chs"
  by (simp add: expected_entries_def map_upt_Suc add.assoc del: upt_Suc)

lemma expected_posdex_Nil: "expected_posdex pinyin u [] = []"
  by (simp add: expected_posdex_def)

lemma expected_posdex_Cons:
  "expected_posdex pinyin u (ch # chs) =
     hz_index_rows u ch @ py_index_rows u ch (entry_pron pinyin ch) @
     expected_posdex pinyin (u + 1) chs"
  by (simp add: expected_posdex_def map_upt_Suc add.assoc del: upt_Suc)

lemma build_rows_Cons:
  "build_rows pinyin now es (ch # chs) u s =
     (case map_of es ch of
        None \<Rightarrow> Inl KeyError
      | Some d \<Rightarrow>
          (case insert_entry (entry_of pinyin now es u ch) s of
             Inl err \<Rightarrow> Inl err
           | Inr s' \<Rightarrow>
               build_rows pinyin now es chs (u + 1)
                 (insert_posdex u ch (entry_pron pinyin ch) s')))"
  unfolding build_rows.simps entry_pron_def entry_of_def entry_sortkey_def Let_def
  by (cases "map_of es ch") simp_all

declare build_rows.simps(2) [simp del]

lemma insert_entry_Inr:
  "insert_entry r s = Inr s' \<longleftrightarrow>
     uid r \<notin> uid ` set (entries s) \<and> sortkey r \<notin> sortkey ` set (entries s) \<and>
     s' = s\<lparr>entries := entries s @ [r]\<rparr>"
  by (auto simp: insert_entry_def)

lemma insert_entry_Inl: "insert_entry r s = Inl err \<Longrightarrow> err = IntegrityError"
  by (auto simp: insert_entry_def split: if_splits)

lemma build_rows_Inr:
  "build_rows pinyin now es chs u s = Inr (u', s') \<Longrightarrow>
     u' = u + int (length chs) \<and>
     entries s' = entries s @ expected_entries pinyin now es u chs \<and>
     posdex s' = posdex s @ expected_posdex pinyin u chs \<and>
     import_log s' = import_log s \<and> properties s' = properties s"
proof (induction chs arbitrary: u s)
  case Nil
  then show ?case
    by (simp add: expected_entries_Nil expected_posdex_Nil)
next
  case (Cons ch chs)
  from Cons.prems obtain d s1 where
    d: "map_of es ch = Some d" and
    ins: "insert_entry (entry_of pinyin now es u ch) s = Inr s1" and
    rest: "build_rows pinyin now es chs (u + 1)
             (insert_posdex u ch (entry_pron pinyin ch) s1) = Inr (u', s')"
    by (auto simp: build_rows_Cons split: option.splits sum.splits)
  from ins have s1: "s1 = s\<lparr>entries := entries s @ [entry_of pinyin now es u ch]\<rparr>"
    by (simp add: insert_entry_Inr)
  from Cons.IH [OF rest] show ?case
    by (simp add: s1 insert_posdex_eq expected_entries_Cons expected_posdex_Cons)
qed


lemma map_word_expected: "map word (expected_entries pinyin now es u chs) = chs"
  by (induction chs arbitrary: u)
     (simp_all add: expected_entries_Nil expected_entries_Cons entry_of_def)

lemma map_sortkey_expected:
  "map sortkey (expected_entries pinyin now es u chs) = map (entry_sortkey pinyin) chs"
  by (induction chs arbitrary: u)
     (simp_all add: expected_entries_Nil expected_entries_Cons entry_of_def)

lemma map_uid_expected:
  "map uid (expected_entries pinyin now es u chs) = map (\<lambda>i. u + int i) [0..<length chs]"
  by (simp add: expected_entries_def entry_of_def)

lemma length_expected: "length (expected_entries pinyin now es u chs) = length chs"
  by (simp add: expected_entries_def)

lemma expected_entry_row:
  "r \<in> set (expected_entries pinyin now es u chs) \<Longrightarrow>
     r = entry_of pinyin now es (uid r) (word r) \<and> word r \<in> set chs"
  by (auto simp: expected_entries_def entry_of_def)

lemma build_rows_succeeds:
  assumes "set chs \<subseteq> dom (map_of es)"
    and "distinct (map (entry_sortkey pinyin) chs)"
    and "\<forall>r\<in>set (entries s). uid r < u \<and> sortkey r \<notin> entry_sortkey pinyin ` set chs"
  shows "\<exists>u' s'. build_rows pinyin now es chs u s = Inr (u', s')"
  using assms
proof (induction chs arbitrary: u s)
  case Nil
  then show ?case by simp
next
  case (Cons ch chs)
  from Cons.prems(1) obtain d where d: "map_of es ch = Some d"
    by auto
  define r where "r = entry_of pinyin now es u ch"
  define s1 where "s1 = s\<lparr>entries := entries s @ [r]\<rparr>"
  have r: "uid r = u" "sortkey r = entry_sortkey pinyin ch"
    by (simp_all add: r_def entry_of_def)
  from Cons.prems(3) have "uid r \<notin> uid ` set (entries s)" "sortkey r \<notin> sortkey ` set (entries s)"
    by (auto simp: r)
  then have ins: "insert_entry r s = Inr s1"
    by (simp add: insert_entry_Inr s1_def)
  define s2 where "s2 = insert_posdex u ch (entry_pron pinyin ch) s1"
  have e2: "entries s2 = entries s @ [r]"
    by (simp add: s2_def s1_def insert_posdex_eq)
  have "\<exists>u' s'. build_rows pinyin now es chs (u + 1) s2 = Inr (u', s')"
  proof (rule Cons.IH)
    show "set chs \<subseteq> dom (map_of es)"
      using Cons.prems(1) by simp
    show "distinct (map (entry_sortkey pinyin) chs)"
      using Cons.prems(2) by simp
    show "\<forall>q\<in>set (entries s2). uid q < u + 1 \<and> sortkey q \<notin> entry_sortkey pinyin ` set chs"
      using Cons.prems(2,3) by (auto simp: e2 r)
  qed
  then show ?case
    by (simp add: build_rows_Cons d r_def [symmetric] ins s2_def)
qed

lemma build_rows_Inl:
  "build_rows pinyin now es chs u s = Inl err \<Longrightarrow> set chs \<subseteq> dom (map_of es) \<Longrightarrow>
     err = IntegrityError"
proof (induction chs arbitrary: u s)
  case Nil
  then show ?case by simp
next
  case (Cons ch chs)
  from Cons.prems(2) obtain d where d: "map_of es ch = Some d"
    by auto
  show ?case
  proof (cases "insert_entry (entry_of pinyin now es u ch) s")
    case (Inl e)
    with Cons.prems(1) d show ?thesis
      by (simp add: build_rows_Cons insert_entry_Inl)
  next
    case (Inr s1)
    with Cons.prems d show ?thesis
      by (auto simp: build_rows_Cons intro: Cons.IH)
  qed
qed

lemma build_rows_keeps_sortkeys_distinct:
  "build_rows pinyin now es chs u s = Inr (u', s') \<Longrightarrow> distinct (map sortkey (entries s)) \<Longrightarrow>
     distinct (map sortkey (entries s'))"
proof (induction chs arbitrary: u s)
  case Nil
  then show ?case by simp
next
  case (Cons ch chs)
  from Cons.prems(1) obtain s1 where
    ins: "insert_entry (entry_of pinyin now es u ch) s = Inr s1" and
    rest: "build_rows pinyin now es chs (u + 1)
             (insert_posdex u ch (entry_pron pinyin ch) s1) = Inr (u', s')"
    by (auto simp: build_rows_Cons split: option.splits sum.splits)
  from ins Cons.prems(2) have "distinct (map sortkey (entries s1))"
    by (auto simp: insert_entry_Inr)
  then have "distinct (map sortkey (entries (insert_posdex u ch (entry_pron pinyin ch) s1)))"
    by (simp add: insert_posdex_eq)
  with rest show ?case
    by (rule Cons.IH)
qed

subsection \<open>The artifact\<close>

lemma fold_keeps_tables:
  assumes "\<And>p s. entries (h p s) = entries s \<and> posdex (h p s) = posdex s \<and>
                   import_log (h p s) = import_log s"
  shows "entries (fold h ps s) = entries s \<and> posdex (fold h ps s) = posdex s \<and>
         import_log (fold h ps s) = import_log s"
  by (induction ps arbitrary: s) (simp_all add: assms)

lemma write_properties_tables:
  "entries (write_properties e dn mn sn ic n now s) = entries s \<and>
   posdex (write_properties e dn mn sn ic n now s) = posdex s \<and>
   import_log (write_properties e dn mn sn ic n now s) = import_log s"
  unfolding write_properties_def Let_def
  by (rule fold_keeps_tables) (simp add: insert_or_replace_property_def split_def)

lemma build_pqb_cases:
  "build_pqb e es out dn mn sn ic fs =
     (case build_rows (pypinyin e) (time_now e) es (sort (map fst es)) 1 schema_store of
        Inl err \<Rightarrow> (Inl err, fs(out \<mapsto> schema_store))
      | Inr (u, s) \<Rightarrow>
          (Inr (), fs(out \<mapsto> insert_import (time_now e) (time_now e) 1 (u - 1)
                                (write_properties e dn mn sn ic (u - 1) (time_now e) s))))"
  unfolding build_pqb_def Let_def
  by (cases "fs out") (simp_all split: sum.splits prod.splits)

lemma sorted_keys_in_dict: "set (sort (map fst es)) \<subseteq> dom (map_of es)"
  by (simp add: dom_map_of_conv_image_fst)

lemma build_pqb_failure:
  assumes "build_pqb e es out dn mn sn ic fs = (Inl err, fs')"
  shows "err = IntegrityError \<and> fs' = fs(out \<mapsto> schema_store)"
proof -
  from assms obtain err' where
    "build_rows (pypinyin e) (time_now e) es (sort (map fst es)) 1 schema_store = Inl err'"
    and "err = err'" and "fs' = fs(out \<mapsto> schema_store)"
    by (auto simp: build_pqb_cases split: sum.splits prod.splits)
  then show ?thesis
    using build_rows_Inl [OF _ sorted_keys_in_dict] by blast
qed

lemma build_pqb_success:
  assumes "build_pqb e es out dn mn sn ic fs = (Inr (), fs')"
  shows "\<exists>s. fs' = fs(out \<mapsto> s) \<and>
           entries s = expected_entries (pypinyin e) (time_now e) es 1 (sort (map fst es)) \<and>
           posdex s = expected_posdex (pypinyin e) 1 (sort (map fst es)) \<and>
           import_log s = [\<lparr>import_id = 1, starttime = time_now e, endtime = time_now e,
                            startentry = 1, endentry = int (length es)\<rparr>] \<and>
           distinct (map sortkey (entries s))"
proof -
  from assms obtain u s0 where
    rows: "build_rows (pypinyin e) (time_now e) es (sort (map fst es)) 1 schema_store =
             Inr (u, s0)"
    and fs': "fs' = fs(out \<mapsto> insert_import (time_now e) (time_now e) 1 (u - 1)
                          (write_properties e dn mn sn ic (u - 1) (time_now e) s0))"
    by (auto simp: build_pqb_cases split: sum.splits prod.splits)
  note closed = build_rows_Inr [OF rows]
  have sk: "distinct (map sortkey (entries s0))"
    by (rule build_rows_keeps_sortkeys_distinct [OF rows]) (simp add: schema_store_def)
  define s1 where "s1 = insert_import (time_now e) (time_now e) 1 (u - 1)
                          (write_properties e dn mn sn ic (u - 1) (time_now e) s0)"
  have "entries s1 = entries s0" "posdex s1 = posdex s0"
    "import_log s1 = import_log s0 @ [\<lparr>import_id = 1, starttime = time_now e,
        endtime = time_now e, startentry = 1, endentry = u - 1\<rparr>]"
    using closed
    by (simp_all add: s1_def insert_import_def write_properties_tables schema_store_def)
  with closed sk fs' have "fs' = fs(out \<mapsto> s1) \<and>
           entries s1 = expected_entries (pypinyin e) (time_now e) es 1 (sort (map fst es)) \<and>
           posdex s1 = expected_posdex (pypinyin e) 1 (sort (map fst es)) \<and>
           import_log s1 = [\<lparr>import_id = 1, starttime = time_now e, endtime = time_now e,
                            startentry = 1, endentry = int (length es)\<rparr>] \<and>
           distinct (map sortkey (entries s1))"
    by (simp add: s1_def schema_store_def)
  then show ?thesis ..
qed

lemma build_pqb_succeeds:
  assumes "distinct (map (entry_sortkey (pypinyin e)) (sort (map fst es)))"
  shows "\<exists>fs'. build_pqb e es out dn mn sn ic fs = (Inr (), fs')"
proof -
  have "\<exists>u s. build_rows (pypinyin e) (time_now e) es (sort (map fst es)) 1 schema_store =
          Inr (u, s)"
    by (rule build_rows_succeeds [OF sorted_keys_in_dict assms]) (simp add: schema_store_def)
  then show ?thesis
    by (auto simp: build_pqb_cases)
qed

subsection \<open>Sort keys that collide\<close>

lemma build_pqb_fails:
  assumes "\<not> distinct (map (entry_sortkey (pypinyin e)) (sort (map fst es)))"
  shows "build_pqb e es out dn mn sn ic fs = (Inl IntegrityError, fs(out \<mapsto> schema_store))"
proof (cases "build_pqb e es out dn mn sn ic fs")
  case (Pair r fs')
  show ?thesis
  proof (cases r)
    case (Inl err)
    with Pair build_pqb_failure [of e es out dn mn sn ic fs err fs'] show ?thesis
      by simp
  next
    case (Inr u)
    with Pair have "build_pqb e es out dn mn sn ic fs = (Inr (), fs')"
      by simp
    from build_pqb_success [OF this] obtain s :: store where
      "entries s = expected_entries (pypinyin e) (time_now e) es 1 (sort (map fst es))"
      and "distinct (map sortkey (entries s))"
      by blast
    then have "distinct (map (entry_sortkey (pypinyin e)) (sort (map fst es)))"
      by (simp add: map_sortkey_expected)
    with assms show ?thesis
      by contradiction
  qed
qed

lemma colliding_keys:
  assumes "a \<in> set xs" "b \<in> set xs" "a \<noteq> b" "f a = f b"
  shows "\<not> distinct (map f xs)"
  using assms by (auto simp: distinct_map inj_on_def)

lemma colliding_example:
  "entry_sortkey no_reading [97, 98] = [97]" "entry_sortkey no_reading [97, 99] = [97]"
  by (simp_all add: entry_sortkey_def make_sortkey_def mandarin_pinyin_tone3_def
        to_fullwidth_ascii_def no_reading_def)

text \<open>
  C4. The sort key of a word is \<^verbatim>\<open>make_sortkey(py, ch) or ch\<close>. When two different words of the
  entry set have the same one, the build raises the store's integrity error; and a build
  that succeeds has written one row per word, in the order of the words, each with its own
  sort key, no two of them equal.
\<close>

theorem sortkey_collision_is_fatal:
  "(a \<in> fst ` set es \<and> b \<in> fst ` set es \<and> a \<noteq> b \<and>
    entry_sortkey (pypinyin e) a = entry_sortkey (pypinyin e) b \<longrightarrow>
      fst (build_pqb e es out dn mn sn ic fs) = Inl IntegrityError) \<and>
   (build_pqb e es out dn mn sn ic fs = (Inr (), fs') \<longrightarrow>
      (\<exists>s. fs' = fs(out \<mapsto> s) \<and>
           map word (entries s) = sort (map fst es) \<and>
           map sortkey (entries s) = map (entry_sortkey (pypinyin e)) (sort (map fst es)) \<and>
           distinct (map sortkey (entries s))))"
proof (intro conjI impI)
  assume "a \<in> fst ` set es \<and> b \<in> fst ` set es \<and> a \<noteq> b \<and>
          entry_sortkey (pypinyin e) a = entry_sortkey (pypinyin e) b"
  then have "\<not> distinct (map (entry_sortkey (pypinyin e)) (sort (map fst es)))"
    by (intro colliding_keys [of a _ b]) simp_all
  then show "fst (build_pqb e es out dn mn sn ic fs) = Inl IntegrityError"
    by (simp add: build_pqb_fails)
next
  assume "build_pqb e es out dn mn sn ic fs = (Inr (), fs')"
  from build_pqb_success [OF this] obtain s :: store where
    "fs' = fs(out \<mapsto> s)"
    "entries s = expected_entries (pypinyin e) (time_now e) es 1 (sort (map fst es))"
    "distinct (map sortkey (entries s))"
    by blast
  then have "fs' = fs(out \<mapsto> s) \<and>
           map word (entries s) = sort (map fst es) \<and>
           map sortkey (entries s) = map (entry_sortkey (pypinyin e)) (sort (map fst es)) \<and>
           distinct (map sortkey (entries s))"
    by (simp add: map_word_expected map_sortkey_expected)
  then show "\<exists>s. fs' = fs(out \<mapsto> s) \<and>
           map word (entries s) = sort (map fst es) \<and>
           map sortkey (entries s) = map (entry_sortkey (pypinyin e)) (sort (map fst es)) \<and>
           distinct (map sortkey (entries s))" ..
qed

lemma sortkey_example:
  "entry_sortkey reads_ri [0x65E5] = [0xFF52, 0xFF49, 0xFF14, 0x65E5]"
  "entry_sortkey reads_ri [0x6708] = [0x6708]"
  by (simp_all add: entry_sortkey_def make_sortkey_def mandarin_pinyin_tone3_def
        to_fullwidth_ascii_def reads_ri_def ascii_def)

theorem sortkey_collision_is_fatal_witness:
  "fst (build_pqb (example_env no_reading) [([97, 98], [100]), ([97, 99], [101])] [111]
          [] [] [] [] Map.empty) = Inl IntegrityError \<and>
   (\<exists>s. build_pqb (example_env reads_ri) [([0x6708], [100]), ([0x65E5], [101])] [111]
          [] [] [] [] Map.empty = (Inr (), [[111] \<mapsto> s]) \<and>
        map word (entries s) = [[0x65E5], [0x6708]] \<and>
        map sortkey (entries s) = [[0xFF52, 0xFF49, 0xFF14, 0x65E5], [0x6708]])"
proof
  show "fst (build_pqb (example_env no_reading) [([97, 98], [100]), ([97, 99], [101])] [111]
          [] [] [] [] Map.empty) = Inl IntegrityError"
    using sortkey_collision_is_fatal
      [of "[97, 98]" "[([97, 98], [100]), ([97, 99], [101])]" "[97, 99]"
          "example_env no_reading" "[111]" "[]" "[]" "[]" "[]" Map.empty]
    by (simp add: example_env_def colliding_example)
next
  let ?run = "build_pqb (example_env reads_ri) [([0x6708], [100]), ([0x65E5], [101])] [111]
                [] [] [] [] Map.empty"
  have "distinct (map (entry_sortkey (pypinyin (example_env reads_ri)))
                      (sort (map fst [([0x6708], [100::nat]), ([0x65E5], [101])])))"
    by (simp add: example_env_def sortkey_example)
  from build_pqb_succeeds [OF this] obtain fs' where run: "?run = (Inr (), fs')"
    by blast
  with sortkey_collision_is_fatal
      [of _ "[([0x6708], [100]), ([0x65E5], [101])]" _ "example_env reads_ri" "[111]"
          "[]" "[]" "[]" "[]" Map.empty fs']
  obtain s :: store where "fs' = [[111] \<mapsto> s]"
    "map word (entries s) = sort (map fst [([0x6708], [100::nat]), ([0x65E5], [101])])"
    "map sortkey (entries s) = map (entry_sortkey (pypinyin (example_env reads_ri)))
        (sort (map fst [([0x6708], [100::nat]), ([0x65E5], [101])]))"
    by blast
  with run have "?run = (Inr (), [[111] \<mapsto> s]) \<and>
        map word (entries s) = [[0x65E5], [0x6708]] \<and>
        map sortkey (entries s) = [[0xFF52, 0xFF49, 0xFF14, 0x65E5], [0x6708]]"
    by (simp add: example_env_def sortkey_example)
  then show "\<exists>s. ?run = (Inr (), [[111] \<mapsto> s]) \<and>
        map word (entries s) = [[0x65E5], [0x6708]] \<and>
        map sortkey (entries s) = [[0xFF52, 0xFF49, 0xFF14, 0x65E5], [0x6708]]" ..
qed

subsection \<open>No character at all\<close>

lemma load_cangjie_table_rejected:
  "\<forall>raw\<in>set (file_lines text). accepted_pair raw = None \<Longrightarrow> load_cangjie_table text = []"
  by (simp add: load_cangjie_table_lines fold_load_line_rejected parse_line_accepted)

lemma compose_entries_Nil: "compose_entries [] [] = []"
  by (simp add: compose_entries_def all_chars_def)

lemma main_no_entries:
  assumes "load_cangjie_table t3 = []" "load_cangjie_table t5 = []"
  shows "main e t3 t5 out dn mn sn ic fs =
           (Inl (SystemExit (ascii ''No entries found '' @ [0x2014] @
                             ascii '' check input file formats/paths.'')), fs)"
  by (simp add: main_def assms compose_entries_Nil)

text \<open>
  C9, as the code has it. When no line of either file is accepted, \<^verbatim>\<open>main\<close> raises
  \<^verbatim>\<open>SystemExit\<close> with its diagnostic before it calls \<^verbatim>\<open>build_pqb\<close>, so nothing is created
  and nothing is removed: the files are as they were before the run. A file that was at the
  output path before the run is still there.
\<close>

theorem no_character_aborts_and_touches_nothing:
  assumes "\<forall>raw\<in>set (file_lines t3) \<union> set (file_lines t5). accepted_pair raw = None"
  shows "main e t3 t5 out dn mn sn ic fs =
           (Inl (SystemExit (ascii ''No entries found '' @ [0x2014] @
                             ascii '' check input file formats/paths.'')), fs)"
proof (rule main_no_entries)
  show "load_cangjie_table t3 = []"
    by (rule load_cangjie_table_rejected) (use assms in blast)
  show "load_cangjie_table t5 = []"
    by (rule load_cangjie_table_rejected) (use assms in blast)
qed

theorem no_character_aborts_and_touches_nothing_witness:
  "main (example_env reads_ri) [35, 32, 99, 10, 122, 122, 32, 0x65E5, 0x6708, 10, 113] []
        [111] [] [] [] [] Map.empty =
     (Inl (SystemExit (ascii ''No entries found '' @ [0x2014] @
                       ascii '' check input file formats/paths.'')), Map.empty)"
proof -
  have lines: "file_lines [35, 32, 99, 10, 122, 122, 32, 0x65E5, 0x6708, 10, 113] =
                 [[35, 32, 99], [122, 122, 32, 0x65E5, 0x6708], [113]]"
    "file_lines [] = []"
    by (simp_all add: line_eval)
  have rejected: "accepted_pair [35, 32, 99] = None"
    "accepted_pair [122, 122, 32, 0x65E5, 0x6708] = None" "accepted_pair [113] = None"
    by (simp_all add: line_eval)
  have "\<forall>raw\<in>set (file_lines [35, 32, 99, 10, 122, 122, 32, 0x65E5, 0x6708, 10, 113]) \<union>
               set (file_lines []). accepted_pair raw = None"
    by (simp add: lines rejected)
  from no_character_aborts_and_touches_nothing [OF this] show ?thesis .
qed

text \<open>
  C9 as stated fails: two empty input files and a store already at the output path; the
  run aborts and the store is still at the path.
\<close>

theorem output_file_after_abort_counterexample:
  "fst (main (example_env reads_ri) [] [] [111] [] [] [] [] [[111] \<mapsto> schema_store]) =
     Inl (SystemExit (ascii ''No entries found '' @ [0x2014] @
                      ascii '' check input file formats/paths.'')) \<and>
   snd (main (example_env reads_ri) [] [] [111] [] [] [] [] [[111] \<mapsto> schema_store]) [111] =
     Some schema_store"
proof -
  have "load_cangjie_table [] = []"
    by (rule load_cangjie_table_rejected) (simp add: line_eval)
  then show ?thesis
    by (simp add: main_no_entries)
qed

subsection \<open>The rows of a build\<close>

lemma built_entry_row:
  assumes "build_pqb e es out dn mn sn ic fs = (Inr (), fs')" "fs' out = Some s"
    and "r \<in> set (entries s)"
  shows "r = entry_of (pypinyin e) (time_now e) es (uid r) (word r) \<and> word r \<in> fst ` set es"
proof -
  from build_pqb_success [OF assms(1)] assms(2) have
    "entries s = expected_entries (pypinyin e) (time_now e) es 1 (sort (map fst es))"
    by auto
  with assms(3) expected_entry_row [of r "pypinyin e" "time_now e" es 1 "sort (map fst es)"]
  show ?thesis
    by simp
qed

lemma entry_sortkey_single:
  "length ch = 1 \<Longrightarrow>
     entry_sortkey pinyin ch =
       to_fullwidth_ascii (first_syllable (mandarin_pinyin_tone3 pinyin ch)) @ ch"
  by (cases ch) (simp_all add: entry_sortkey_def make_sortkey_def first_syllable_def)

lemma example_env_sel:
  "pypinyin (example_env p) = p" "time_now (example_env p) = 1700000000"
  by (simp_all add: example_env_def)

lemma example_keys: "sort (map fst [([0x6708], d), ([0x65E5::nat], d')]) = [[0x65E5], [0x6708]]"
  by simp

lemma example_build:
  "\<exists>s. build_pqb (example_env reads_ri) [([0x6708], d), ([0x65E5], d')] out dn mn sn ic fs =
          (Inr (), fs(out \<mapsto> s)) \<and>
        entries s = expected_entries reads_ri 1700000000 [([0x6708], d), ([0x65E5], d')] 1
                      [[0x65E5], [0x6708]] \<and>
        posdex s = expected_posdex reads_ri 1 [[0x65E5], [0x6708]] \<and>
        import_log s = [\<lparr>import_id = 1, starttime = 1700000000, endtime = 1700000000,
                         startentry = 1, endentry = 2\<rparr>]"
proof -
  let ?es = "[([0x6708::nat], d::ustr), ([0x65E5], d')]"
  have "distinct (map (entry_sortkey (pypinyin (example_env reads_ri))) (sort (map fst ?es)))"
    unfolding example_keys example_env_sel by (simp add: sortkey_example)
  from build_pqb_succeeds [OF this] obtain fs' where
    run: "build_pqb (example_env reads_ri) ?es out dn mn sn ic fs = (Inr (), fs')"
    by blast
  from build_pqb_success [OF run] obtain s :: store where s: "fs' = fs(out \<mapsto> s)"
    "entries s = expected_entries (pypinyin (example_env reads_ri))
                   (time_now (example_env reads_ri)) ?es 1 (sort (map fst ?es))"
    "posdex s = expected_posdex (pypinyin (example_env reads_ri)) 1 (sort (map fst ?es))"
    "import_log s = [\<lparr>import_id = 1, starttime = time_now (example_env reads_ri),
        endtime = time_now (example_env reads_ri), startentry = 1,
        endentry = int (length ?es)\<rparr>]"
    by blast
  have "build_pqb (example_env reads_ri) ?es out dn mn sn ic fs = (Inr (), fs(out \<mapsto> s))"
    using run s(1) by (simp only:)
  moreover have "entries s = expected_entries reads_ri 1700000000 ?es 1 [[0x65E5], [0x6708]]"
    using s(2) unfolding example_keys example_env_sel .
  moreover have "posdex s = expected_posdex reads_ri 1 [[0x65E5], [0x6708]]"
    using s(3) unfolding example_keys example_env_sel .
  moreover have "import_log s = [\<lparr>import_id = 1, starttime = 1700000000,
                     endtime = 1700000000, startentry = 1, endentry = 2\<rparr>]"
    using s(4) unfolding example_env_sel by simp
  ultimately show ?thesis
    by blast
qed

text \<open>
  C2. In the store of a build, the sort key of an entry whose word is one character is the
  full-width transform of the first syllable of its transcription followed by the
  character; when the transcription has no syllable, or an empty one, it is the character
  alone. The transform keeps the length and moves each codepoint from 0x21 to 0x7E up by
  0xFEE0, leaving the others as they are.
\<close>

theorem single_character_sortkey:
  assumes "build_pqb e es out dn mn sn ic fs = (Inr (), fs')" "fs' out = Some s"
    and "r \<in> set (entries s)" "length (word r) = 1"
  shows "sortkey r =
           to_fullwidth_ascii (first_syllable (mandarin_pinyin_tone3 (pypinyin e) (word r))) @
           word r \<and>
         (first_syllable (mandarin_pinyin_tone3 (pypinyin e) (word r)) = [] \<longrightarrow>
            sortkey r = word r) \<and>
         length (to_fullwidth_ascii t) = length t \<and>
         (\<forall>i<length t. to_fullwidth_ascii t ! i =
            (if 0x21 \<le> t ! i \<and> t ! i \<le> 0x7E then t ! i + 0xFEE0 else t ! i))"
proof -
  from built_entry_row [OF assms(1-3)] have
    "sortkey r = sortkey (entry_of (pypinyin e) (time_now e) es (uid r) (word r))"
    by simp
  then have "sortkey r = entry_sortkey (pypinyin e) (word r)"
    by (simp add: entry_of_def)
  with assms(4) have key: "sortkey r =
      to_fullwidth_ascii (first_syllable (mandarin_pinyin_tone3 (pypinyin e) (word r))) @ word r"
    by (simp add: entry_sortkey_single)
  moreover from key have
    "first_syllable (mandarin_pinyin_tone3 (pypinyin e) (word r)) = [] \<longrightarrow> sortkey r = word r"
    by (simp add: to_fullwidth_ascii_def)
  moreover have "length (to_fullwidth_ascii t) = length t"
    by (simp add: to_fullwidth_ascii_def)
  moreover have "\<forall>i<length t. to_fullwidth_ascii t ! i =
            (if 0x21 \<le> t ! i \<and> t ! i \<le> 0x7E then t ! i + 0xFEE0 else t ! i)"
    by (simp add: to_fullwidth_ascii_def)
  ultimately show ?thesis
    by blast
qed

lemma syllable_example:
  "first_syllable (mandarin_pinyin_tone3 reads_ri [0x65E5]) = [114, 105, 52]"
  "first_syllable (mandarin_pinyin_tone3 reads_ri [0x6708]) = []"
  by (simp_all add: first_syllable_def mandarin_pinyin_tone3_def reads_ri_def ascii_def)

theorem single_character_sortkey_witness:
  "\<exists>s r q. build_pqb (example_env reads_ri) [([0x6708], [100]), ([0x65E5], [101])] [111]
            [] [] [] [] Map.empty = (Inr (), [[111] \<mapsto> s]) \<and>
     r \<in> set (entries s) \<and> word r = [0x65E5] \<and>
     sortkey r = [0xFF52, 0xFF49, 0xFF14, 0x65E5] \<and>
     q \<in> set (entries s) \<and> word q = [0x6708] \<and> sortkey q = [0x6708]"
proof -
  let ?es = "[([0x6708::nat], [100::nat]), ([0x65E5], [101])]"
  from example_build [of "[100]" "[101]" "[111]" "[]" "[]" "[]" "[]" Map.empty]
  obtain s :: store where
    run: "build_pqb (example_env reads_ri) ?es [111] [] [] [] [] Map.empty =
            (Inr (), [[111] \<mapsto> s])"
    and rows: "entries s = expected_entries reads_ri 1700000000 ?es 1 [[0x65E5], [0x6708]]"
    by blast
  from rows have "map word (entries s) = [[0x65E5], [0x6708]]"
    by (simp add: map_word_expected)
  then have "[0x65E5] \<in> word ` set (entries s)" "[0x6708] \<in> word ` set (entries s)"
    by (simp_all flip: set_map)
  then obtain r q where r: "r \<in> set (entries s)" "word r = [0x65E5]"
    and q: "q \<in> set (entries s)" "word q = [0x6708]"
    by auto
  have at: "[[111] \<mapsto> s] [111] = Some s"
    by simp
  from single_character_sortkey [OF run at r(1), of "[]"] r(2)
  have "sortkey r = [0xFF52, 0xFF49, 0xFF14, 0x65E5]"
    by (simp add: example_env_def syllable_example to_fullwidth_ascii_def)
  moreover from single_character_sortkey [OF run at q(1), of "[]"] q(2)
  have "sortkey q = [0x6708]"
    by (simp add: example_env_def syllable_example to_fullwidth_ascii_def)
  ultimately have "build_pqb (example_env reads_ri) ?es [111] [] [] [] [] Map.empty =
       (Inr (), [[111] \<mapsto> s]) \<and>
     r \<in> set (entries s) \<and> word r = [0x65E5] \<and>
     sortkey r = [0xFF52, 0xFF49, 0xFF14, 0x65E5] \<and>
     q \<in> set (entries s) \<and> word q = [0x6708] \<and> sortkey q = [0x6708]"
    using run r q by simp
  then show ?thesis
    by blast
qed

subsection \<open>The index rows of one entry\<close>

lemma filter_hz_index_rows:
  "filter (\<lambda>x. p_uid x = v) (hz_index_rows u w) = (if v = u then hz_index_rows u w else [])"
  by (auto simp: hz_index_rows_def filter_empty_conv intro: filter_True)

lemma filter_py_index_rows:
  "filter (\<lambda>x. p_uid x = v) (py_index_rows u w p) = (if v = u then py_index_rows u w p else [])"
  by (auto simp: py_index_rows_def Let_def filter_empty_conv intro: filter_True)

lemma expected_posdex_uid:
  "x \<in> set (expected_posdex pinyin u chs) \<Longrightarrow> u \<le> p_uid x"
  by (auto simp: expected_posdex_def hz_index_rows_def py_index_rows_def Let_def)

lemma expected_entries_uid:
  "r \<in> set (expected_entries pinyin now es u chs) \<Longrightarrow> u \<le> uid r"
  by (auto simp: expected_entries_def entry_of_def)

lemma filter_expected_posdex_later:
  "v < u \<Longrightarrow> filter (\<lambda>x. p_uid x = v) (expected_posdex pinyin u chs) = []"
  using expected_posdex_uid [of _ pinyin u chs] by (fastforce simp: filter_empty_conv)

lemma filter_expected_posdex:
  "r \<in> set (expected_entries pinyin now es u chs) \<Longrightarrow>
     filter (\<lambda>x. p_uid x = uid r) (expected_posdex pinyin u chs) =
       hz_index_rows (uid r) (word r) @
       py_index_rows (uid r) (word r) (entry_pron pinyin (word r))"
proof (induction chs arbitrary: u)
  case Nil
  then show ?case
    by (simp add: expected_entries_Nil)
next
  case (Cons ch chs)
  from Cons.prems consider
    (first) "r = entry_of pinyin now es u ch"
    | (rest) "r \<in> set (expected_entries pinyin now es (u + 1) chs)"
    by (auto simp: expected_entries_Cons)
  then show ?case
  proof cases
    case first
    then have "uid r = u" "word r = ch"
      by (simp_all add: entry_of_def)
    then show ?thesis
      by (simp add: expected_posdex_Cons filter_hz_index_rows filter_py_index_rows
          filter_expected_posdex_later)
  next
    case rest
    from expected_entries_uid [OF rest] have "uid r \<noteq> u"
      by simp
    with Cons.IH [OF rest] show ?thesis
      by (simp add: expected_posdex_Cons filter_hz_index_rows filter_py_index_rows)
  qed
qed

lemma built_index_rows:
  assumes "build_pqb e es out dn mn sn ic fs = (Inr (), fs')" "fs' out = Some s"
    and "r \<in> set (entries s)"
  shows "filter (\<lambda>x. p_uid x = uid r) (posdex s) =
           hz_index_rows (uid r) (word r) @
           py_index_rows (uid r) (word r) (entry_pron (pypinyin e) (word r))"
proof -
  from build_pqb_success [OF assms(1)] assms(2) have
    "entries s = expected_entries (pypinyin e) (time_now e) es 1 (sort (map fst es))"
    "posdex s = expected_posdex (pypinyin e) 1 (sort (map fst es))"
    by auto
  with assms(3) show ?thesis
    by (simp add: filter_expected_posdex)
qed

lemma hz_index_rows_single:
  "hz_index_rows u [c] =
     [\<lparr>tbl_family = HZ, tbl_pos = 1, syllable = [c], p_uid = u, p_length = 1\<rparr>]"
  by (simp add: hz_index_rows_def)

lemma py_index_rows_Nil: "py_index_rows u w [] = []"
  by (simp add: py_index_rows_def tokens_def)

text \<open>
  C10. An entry of a build whose character has no transcription (\<^verbatim>\<open>mandarin_pinyin_tone3\<close>
  gives no syllable, or the one empty syllable of the error handler) has the empty string
  as \<^verbatim>\<open>pron\<close>; no row of a syllable index carries its uid; and the one index row with its
  uid is the row of the character at position 1, with length 1.
\<close>

theorem entry_without_transcription:
  assumes "build_pqb e es out dn mn sn ic fs = (Inr (), fs')" "fs' out = Some s"
    and "r \<in> set (entries s)" "length (word r) = 1"
    and "mandarin_pinyin_tone3 (pypinyin e) (word r) = [] \<or>
         mandarin_pinyin_tone3 (pypinyin e) (word r) = [[]]"
  shows "pron r = [] \<and>
         filter (\<lambda>x. p_uid x = uid r \<and> tbl_family x = PY) (posdex s) = [] \<and>
         filter (\<lambda>x. p_uid x = uid r) (posdex s) =
           [\<lparr>tbl_family = HZ, tbl_pos = 1, syllable = word r, p_uid = uid r, p_length = 1\<rparr>]"
proof -
  from assms(5) have none: "entry_pron (pypinyin e) (word r) = []"
    by (auto simp: entry_pron_def)
  from built_entry_row [OF assms(1-3)] have
    "pron r = pron (entry_of (pypinyin e) (time_now e) es (uid r) (word r))"
    by simp
  with none have pron: "pron r = []"
    by (simp add: entry_of_def)
  from assms(4) obtain c where c: "word r = [c]"
    by (cases "word r") simp_all
  have rows: "filter (\<lambda>x. p_uid x = uid r) (posdex s) =
      [\<lparr>tbl_family = HZ, tbl_pos = 1, syllable = word r, p_uid = uid r, p_length = 1\<rparr>]"
    using built_index_rows [OF assms(1-3)] none
    by (simp add: c hz_index_rows_single py_index_rows_Nil)
  have "filter (\<lambda>x. p_uid x = uid r \<and> tbl_family x = PY) (posdex s) =
          filter (\<lambda>x. tbl_family x = PY) (filter (\<lambda>x. p_uid x = uid r) (posdex s))"
    by (simp add: conj_commute)
  then have "filter (\<lambda>x. p_uid x = uid r \<and> tbl_family x = PY) (posdex s) = []"
    by (simp only: rows) simp
  with pron rows show ?thesis
    by blast
qed

lemma transcription_example: "mandarin_pinyin_tone3 reads_ri [0x6708] = [[]]"
  by (simp add: mandarin_pinyin_tone3_def reads_ri_def)

theorem entry_without_transcription_witness:
  "\<exists>s r. build_pqb (example_env reads_ri) [([0x6708], [100]), ([0x65E5], [101])] [111]
            [] [] [] [] Map.empty = (Inr (), [[111] \<mapsto> s]) \<and>
     r \<in> set (entries s) \<and> word r = [0x6708] \<and> pron r = [] \<and>
     filter (\<lambda>x. p_uid x = uid r \<and> tbl_family x = PY) (posdex s) = [] \<and>
     filter (\<lambda>x. p_uid x = uid r) (posdex s) =
       [\<lparr>tbl_family = HZ, tbl_pos = 1, syllable = [0x6708], p_uid = uid r, p_length = 1\<rparr>]"
proof -
  let ?es = "[([0x6708::nat], [100::nat]), ([0x65E5], [101])]"
  from example_build [of "[100]" "[101]" "[111]" "[]" "[]" "[]" "[]" Map.empty]
  obtain s :: store where
    run: "build_pqb (example_env reads_ri) ?es [111] [] [] [] [] Map.empty =
            (Inr (), [[111] \<mapsto> s])"
    and rows: "entries s = expected_entries reads_ri 1700000000 ?es 1 [[0x65E5], [0x6708]]"
    by blast
  from rows have "map word (entries s) = [[0x65E5], [0x6708]]"
    by (simp add: map_word_expected)
  then have "[0x6708] \<in> word ` set (entries s)"
    by (simp flip: set_map)
  then obtain r where r: "r \<in> set (entries s)" "word r = [0x6708]"
    by auto
  have at: "[[111] \<mapsto> s] [111] = Some s"
    by simp
  have single: "length (word r) = 1"
    by (simp add: r(2))
  have none: "mandarin_pinyin_tone3 (pypinyin (example_env reads_ri)) (word r) = [] \<or>
              mandarin_pinyin_tone3 (pypinyin (example_env reads_ri)) (word r) = [[]]"
    by (simp add: r(2) example_env_sel transcription_example)
  from entry_without_transcription [OF run at r(1) single none] r run
  have "build_pqb (example_env reads_ri) ?es [111] [] [] [] [] Map.empty =
          (Inr (), [[111] \<mapsto> s]) \<and>
     r \<in> set (entries s) \<and> word r = [0x6708] \<and> pron r = [] \<and>
     filter (\<lambda>x. p_uid x = uid r \<and> tbl_family x = PY) (posdex s) = [] \<and>
     filter (\<lambda>x. p_uid x = uid r) (posdex s) =
       [\<lparr>tbl_family = HZ, tbl_pos = 1, syllable = [0x6708], p_uid = uid r, p_length = 1\<rparr>]"
    by simp
  then show ?thesis
    by blast
qed

subsection \<open>The characters of a run\<close>

lemma entry_sortkey_inj:
  assumes "length a = 1" "length b = 1" "entry_sortkey pinyin a = entry_sortkey pinyin b"
  shows "a = b"
proof -
  from assms(1,2) obtain x y where "a = [x]" "b = [y]"
    by (cases a; cases b) simp_all
  with assms(3) show ?thesis
    by (simp add: entry_sortkey_single)
qed

lemma distinct_sortkeys:
  assumes "distinct chs" "\<forall>ch\<in>set chs. length ch = 1"
  shows "distinct (map (entry_sortkey pinyin) chs)"
proof -
  have "inj_on (entry_sortkey pinyin) (set chs)"
  proof (rule inj_onI)
    fix a b
    assume "a \<in> set chs" "b \<in> set chs" "entry_sortkey pinyin a = entry_sortkey pinyin b"
    with assms(2) show "a = b"
      by (intro entry_sortkey_inj [of a b pinyin]) simp_all
  qed
  with assms(1) show ?thesis
    by (simp add: distinct_map)
qed

lemma uid_range: "map (\<lambda>i. 1 + int i) [0..<n] = map int [1..<Suc n]"
proof -
  have "map int [1..<Suc n] = map int (map Suc [0..<n])"
    by (simp only: map_Suc_upt One_nat_def)
  then show ?thesis
    by (simp add: comp_def)
qed

lemma build_pqb_single_characters:
  assumes "distinct (map fst es)" "\<forall>ch\<in>fst ` set es. length ch = 1"
  shows "\<exists>s. build_pqb e es out dn mn sn ic fs = (Inr (), fs(out \<mapsto> s)) \<and>
           map word (entries s) = sort (map fst es) \<and>
           map uid (entries s) = map int [1..<Suc (length es)] \<and>
           import_log s = [\<lparr>import_id = 1, starttime = time_now e, endtime = time_now e,
                            startentry = 1, endentry = int (length es)\<rparr>]"
proof -
  have "distinct (map (entry_sortkey (pypinyin e)) (sort (map fst es)))"
    using assms by (intro distinct_sortkeys) simp_all
  from build_pqb_succeeds [OF this] obtain fs' where
    run: "build_pqb e es out dn mn sn ic fs = (Inr (), fs')"
    by blast
  from build_pqb_success [OF run] obtain s :: store where s: "fs' = fs(out \<mapsto> s)"
    "entries s = expected_entries (pypinyin e) (time_now e) es 1 (sort (map fst es))"
    "import_log s = [\<lparr>import_id = 1, starttime = time_now e, endtime = time_now e,
                      startentry = 1, endentry = int (length es)\<rparr>]"
    by blast
  have "build_pqb e es out dn mn sn ic fs = (Inr (), fs(out \<mapsto> s))"
    using run s(1) by (simp only:)
  moreover have "map word (entries s) = sort (map fst es)"
    by (simp only: s(2) map_word_expected)
  moreover have "map uid (entries s) = map int [1..<Suc (length es)]"
    by (simp add: s(2) map_uid_expected uid_range)
  ultimately show ?thesis
    using s(3) by blast
qed

lemma distinct_fold_update:
  "distinct (map fst es0) \<Longrightarrow>
     distinct (map fst (fold (\<lambda>ch es. case f ch of None \<Rightarrow> es | Some d \<Rightarrow> AList.update ch d es)
                             chs es0))"
  by (induction chs arbitrary: es0) (simp_all add: distinct_update split: option.splits)

lemma distinct_compose_entries: "distinct (map fst (compose_entries cj3 cj5))"
  unfolding compose_entries_def by (rule distinct_fold_update) simp

lemma first_seen_codes_empty:
  "first_seen_codes t ch = [] \<longleftrightarrow>
     ch \<notin> snd ` set (List.map_filter accepted_pair (file_lines t))"
proof -
  have "first_seen_codes t ch = [] \<longleftrightarrow> set (first_seen_codes t ch) = {}"
    by simp
  also have "\<dots> \<longleftrightarrow> ch \<notin> snd ` set (List.map_filter accepted_pair (file_lines t))"
    unfolding set_first_seen_codes set_map_filter_Some by force
  finally show ?thesis .
qed

lemma keys_compose_entries:
  "fst ` set (compose_entries (load_cangjie_table t3) (load_cangjie_table t5)) =
     set (discovered_chars t3 t5)"
proof -
  let ?es = "compose_entries (load_cangjie_table t3) (load_cangjie_table t5)"
  have "ch \<in> dom (map_of ?es) \<longleftrightarrow> ch \<in> set (discovered_chars t3 t5)" for ch
  proof -
    have "ch \<in> dom (map_of ?es) \<longleftrightarrow>
            \<not> (first_seen_codes t3 ch = [] \<and> first_seen_codes t5 ch = [])"
      by (simp add: loaded_entry dom_def)
    also have "\<dots> \<longleftrightarrow> ch \<in> set (discovered_chars t3 t5)"
      by (auto simp: first_seen_codes_empty discovered_chars_def set_map_filter_Some)
    finally show ?thesis .
  qed
  then have "dom (map_of ?es) = set (discovered_chars t3 t5)"
    by blast
  then show ?thesis
    by (simp only: dom_map_of_conv_image_fst)
qed

lemma accepted_pair_single: "accepted_pair raw = Some (code, ch) \<Longrightarrow> length ch = 1"
  by (auto simp: accepted_pair_def Let_def split: if_splits list.splits)

lemma discovered_chars_single: "ch \<in> set (discovered_chars t3 t5) \<Longrightarrow> length ch = 1"
  by (auto simp: discovered_chars_def set_map_filter_Some dest: accepted_pair_single)

lemma sort_distinct_keys:
  "distinct xs \<Longrightarrow> sort xs = sorted_list_of_set (set xs)"
  by (simp add: sorted_list_of_set_sort_remdups distinct_remdups_id)

lemma length_discovered_chars:
  assumes "distinct (map fst es)" "fst ` set es = set (discovered_chars t3 t5)"
  shows "length es = length (discovered_chars t3 t5)"
proof -
  have "length es = card (set (map fst es))"
    using distinct_card [OF assms(1)] by simp
  also have "\<dots> = card (set (discovered_chars t3 t5))"
    using assms(2) by simp
  also have "\<dots> = length (discovered_chars t3 t5)"
    by (rule distinct_card) (simp add: discovered_chars_def)
  finally show ?thesis .
qed

lemma sorted_singletons:
  fixes A :: "nat set"
  assumes "finite A"
  shows "sorted_list_of_set ((\<lambda>c. [c]) ` A) = map (\<lambda>c. [c]) (sorted_list_of_set A)"
proof (rule sorted_distinct_set_unique)
  show "sorted (sorted_list_of_set ((\<lambda>c. [c]) ` A))"
    by simp
  show "distinct (sorted_list_of_set ((\<lambda>c. [c]) ` A))"
    by simp
  have "(\<lambda>x y::nat. [x] \<le> [y]) = (\<le>)"
    by (auto simp: fun_eq_iff)
  then have "sorted (map (\<lambda>c. [c]) (sorted_list_of_set A)) = sorted (sorted_list_of_set A)"
    by (simp only: sorted_map)
  then show "sorted (map (\<lambda>c. [c]) (sorted_list_of_set A))"
    by simp
  show "distinct (map (\<lambda>c. [c]) (sorted_list_of_set A))"
    by (simp add: distinct_map inj_on_def)
  show "set (sorted_list_of_set ((\<lambda>c. [c]) ` A)) = set (map (\<lambda>c. [c]) (sorted_list_of_set A))"
    using assms by simp
qed

lemma discovered_chars_codepoints:
  "set (discovered_chars t3 t5) = (\<lambda>c. [c]) ` hd ` set (discovered_chars t3 t5)"
proof -
  have "ch = [hd ch]" if "ch \<in> set (discovered_chars t3 t5)" for ch
    using discovered_chars_single [OF that] by (cases ch) simp_all
  then show ?thesis
    by (auto simp: image_iff)
qed

text \<open>
  C3. A run whose files give at least one character succeeds and leaves a store whose
  entries are the characters, each once, in ascending order of their codepoints, whatever
  the order in which the lines gave them, with the uids 1, 2, ..., N in that order, N the
  number of different characters; the import log has one row, from entry 1 to entry N.
\<close>

theorem uids_are_dense_in_codepoint_order:
  assumes "discovered_chars t3 t5 \<noteq> []"
  shows "\<exists>s. main e t3 t5 out dn mn sn ic fs = (Inr (), fs(out \<mapsto> s)) \<and>
           map word (entries s) =
             map (\<lambda>c. [c]) (sorted_list_of_set (hd ` set (discovered_chars t3 t5))) \<and>
           map uid (entries s) = map int [1..<Suc (length (discovered_chars t3 t5))] \<and>
           import_log s =
             [\<lparr>import_id = 1, starttime = time_now e, endtime = time_now e, startentry = 1,
               endentry = int (length (discovered_chars t3 t5))\<rparr>]"
proof -
  define es where "es = compose_entries (load_cangjie_table t3) (load_cangjie_table t5)"
  have keys: "fst ` set es = set (discovered_chars t3 t5)"
    unfolding es_def by (rule keys_compose_entries)
  have dist: "distinct (map fst es)"
    unfolding es_def by (rule distinct_compose_entries)
  have single: "\<forall>ch\<in>fst ` set es. length ch = 1"
    unfolding keys by (simp add: discovered_chars_single)
  from assms keys have "es \<noteq> []"
    by auto
  then have run: "main e t3 t5 out dn mn sn ic fs = build_pqb e es out dn mn sn ic fs"
    by (simp add: main_def es_def)
  have n: "length es = length (discovered_chars t3 t5)"
    using dist keys by (rule length_discovered_chars)
  have "sort (map fst es) = sorted_list_of_set (set (map fst es))"
    using dist by (rule sort_distinct_keys)
  then have "sort (map fst es) = sorted_list_of_set (set (discovered_chars t3 t5))"
    using keys by simp
  also have "\<dots> = sorted_list_of_set ((\<lambda>c. [c]) ` hd ` set (discovered_chars t3 t5))"
    using discovered_chars_codepoints [of t3 t5] by simp
  also have "\<dots> = map (\<lambda>c. [c]) (sorted_list_of_set (hd ` set (discovered_chars t3 t5)))"
    by (rule sorted_singletons) simp
  finally have words: "sort (map fst es) =
      map (\<lambda>c. [c]) (sorted_list_of_set (hd ` set (discovered_chars t3 t5)))" .
  from build_pqb_single_characters [OF dist single, of e out dn mn sn ic fs]
  show ?thesis
    unfolding run n words .
qed

lemma discovered_example:
  "discovered_chars [98, 9, 0x6708, 10, 97, 9, 0x65E5] [97, 9, 0x65E5] = [[0x6708], [0x65E5]]"
  by (simp add: discovered_chars_def line_eval)

theorem uids_are_dense_in_codepoint_order_witness:
  "\<exists>s. main (example_env reads_ri) [98, 9, 0x6708, 10, 97, 9, 0x65E5] [97, 9, 0x65E5] [111]
          [] [] [] [] Map.empty = (Inr (), [[111] \<mapsto> s]) \<and>
       map word (entries s) = [[0x65E5], [0x6708]] \<and>
       map uid (entries s) = [1, 2] \<and>
       import_log s = [\<lparr>import_id = 1, starttime = 1700000000, endtime = 1700000000,
                        startentry = 1, endentry = 2\<rparr>]"
proof -
  have found: "discovered_chars [98, 9, 0x6708, 10, 97, 9, 0x65E5] [97, 9, 0x65E5] \<noteq> []"
    by (simp add: discovered_example)
  have range: "map int [1..<Suc 2] = [1, 2]"
    by (simp add: upt_rec)
  have sorted: "sorted_list_of_set (hd ` set [[0x6708], [0x65E5::nat]]) = [0x65E5, 0x6708]"
    by (simp add: insert_commute)
  from uids_are_dense_in_codepoint_order
    [OF found, of "example_env reads_ri" "[111]" "[]" "[]" "[]" "[]" Map.empty]
  show ?thesis
    unfolding discovered_example example_env_sel sorted
    by (simp add: range)
qed

end
